theory Spec2Isabelle
  imports Complex_Main "HOL-Library.Log_Nat" "HOL-Library.AList"
begin

section \<open>The host language: errors, strings, floats\<close>

text \<open>
  The program is Python. Every exception it can raise is a value of \<open>py_error\<close>;
  \<open>SystemExit\<close> is what \<open>quit()\<close> raises, and it carries the line that
  \<open>print\<close> wrote to standard output just before.
\<close>

datatype py_error = ValueError | IndexError | OverflowError | SystemExit string

text \<open>
  A Python \<open>float\<close> is an IEEE 754 binary64 number. A finite one is kept as the
  rational it is equal to; the two zeros are identified (Python's \<open>==\<close> does the same).
\<close>

datatype pyfloat = Fin rat | PosInf | NegInf | NaN

definition pow2 :: "int \<Rightarrow> rat" where
  "pow2 k = (if 0 \<le> k then 2 ^ nat k else 1 / 2 ^ nat (- k))"

definition round_half_even :: "rat \<Rightarrow> int" where
  "round_half_even q =
     (let f = \<lfloor>q\<rfloor>; d = q - of_int f
      in if d < 1 / 2 then f else if 1 / 2 < d then f + 1
         else if even f then f else f + 1)"

text \<open>\<open>ilog2 q\<close> is the exponent \<open>e\<close> with \<open>2^e \<le> q < 2^(e+1)\<close>, for \<open>q > 0\<close>.\<close>

definition ilog2 :: "rat \<Rightarrow> int" where
  "ilog2 q =
     (let e = bitlen (fst (quotient_of q)) - bitlen (snd (quotient_of q))
      in if pow2 e \<le> q then e else e - 1)"

text \<open>
  Rounding to the nearest binary64 number, ties to even: 53 significant bits, the
  smallest exponent -1022 (below it the spacing stays \<open>2^-1074\<close>), and infinity from
  \<open>2^1024\<close> on.
\<close>

definition round64 :: "rat \<Rightarrow> pyfloat" where
  "round64 q =
     (if q = 0 then Fin 0
      else let a = \<bar>q\<bar>; u = pow2 (max (ilog2 a) (- 1022) - 52);
               r = of_int (round_half_even (a / u)) * u
           in if pow2 1024 \<le> r then (if q < 0 then NegInf else PosInf)
              else Fin (if q < 0 then - r else r))"

subsection \<open>Characters and whitespace\<close>

text \<open>
  A string is a list of 8-bit characters, read as the code points 0 to 255.
  \<open>str.strip()\<close> removes the characters of \<open>isspace\<close>; the builtins \<open>float\<close> and
  \<open>int\<close> skip a smaller set, without the separators 28 to 31.
\<close>

definition isspace :: "char \<Rightarrow> bool" where
  "isspace c = (of_char c \<in> {9, 10, 11, 12, 13, 28, 29, 30, 31, 32, 133, 160 :: nat})"

definition is_num_space :: "char \<Rightarrow> bool" where
  "is_num_space c = (of_char c \<in> {9, 10, 11, 12, 13, 32, 133, 160 :: nat})"

definition is_digit :: "char \<Rightarrow> bool" where
  "is_digit c = (48 \<le> (of_char c :: nat) \<and> (of_char c :: nat) \<le> 57)"

definition strip_with :: "(char \<Rightarrow> bool) \<Rightarrow> string \<Rightarrow> string" where
  "strip_with p s = rev (dropWhile p (rev (dropWhile p s)))"

definition strip :: "string \<Rightarrow> string" where
  "strip s = strip_with isspace s"

definition tolower :: "char \<Rightarrow> char" where
  "tolower c = (if 65 \<le> (of_char c :: nat) \<and> (of_char c :: nat) \<le> 90
                then char_of (of_char c + 32 :: nat) else c)"

definition digits_val :: "string \<Rightarrow> nat" where
  "digits_val ds = foldl (\<lambda>n c. 10 * n + (of_char c - 48)) 0 ds"

subsection \<open>The builtin \<open>float\<close> on a string\<close>

text \<open>
  An underscore is allowed between two digits only; the remaining characters are then
  read without the underscores. \<open>prev\<close> is the character before, NUL at the start.
\<close>

fun remove_underscores :: "char \<Rightarrow> string \<Rightarrow> string option" where
  "remove_underscores prev [] = (if prev = CHR ''_'' then None else Some [])"
| "remove_underscores prev (c # cs) =
     (if c = CHR ''_'' then (if is_digit prev then remove_underscores c cs else None)
      else if prev = CHR ''_'' \<and> \<not> is_digit c then None
      else map_option ((#) c) (remove_underscores c cs))"

text \<open>An optional sign at the front: is it a minus, and what follows it.\<close>

definition split_sign :: "string \<Rightarrow> bool \<times> string" where
  "split_sign s =
     (case s of [] \<Rightarrow> (False, [])
      | c # t \<Rightarrow> if c = CHR ''-'' then (True, t)
                 else if c = CHR ''+'' then (False, t) else (False, s))"

definition pow10 :: "bool \<Rightarrow> nat \<Rightarrow> rat" where
  "pow10 neg n = (if neg then 1 / 10 ^ n else 10 ^ n)"

text \<open>
  The exponent part that may follow the mantissa \<open>m\<close>: nothing, or \<open>e\<close>/\<open>E\<close>, an
  optional sign and at least one digit. Anything else is left over, which is an error.
\<close>

definition parse_exponent :: "rat \<Rightarrow> string \<Rightarrow> rat option" where
  "parse_exponent m s =
     (case s of [] \<Rightarrow> Some m
      | c # t \<Rightarrow>
          if c = CHR ''e'' \<or> c = CHR ''E'' then
            (let (neg, u) = split_sign t
             in if u \<noteq> [] \<and> list_all is_digit u
                then Some (m * pow10 neg (digits_val u)) else None)
          else None)"

text \<open>Digits, an optional point and more digits, with a digit on one side at least.\<close>

definition parse_decimal :: "string \<Rightarrow> rat option" where
  "parse_decimal s =
     (let ip = takeWhile is_digit s; r1 = dropWhile is_digit s;
          has_point = (r1 \<noteq> [] \<and> hd r1 = CHR ''.'');
          fp = (if has_point then takeWhile is_digit (tl r1) else []);
          r2 = (if has_point then dropWhile is_digit (tl r1) else r1)
      in if ip = [] \<and> fp = [] then None
         else parse_exponent (of_nat (digits_val (ip @ fp)) / 10 ^ length fp) r2)"

definition parse_inf_or_nan :: "bool \<Rightarrow> string \<Rightarrow> pyfloat option" where
  "parse_inf_or_nan neg s =
     (let l = map tolower s
      in if l = ''inf'' \<or> l = ''infinity'' then Some (if neg then NegInf else PosInf)
         else if l = ''nan'' then Some NaN else None)"

text \<open>\<open>float(v)\<close>; \<open>None\<close> is \<open>ValueError\<close>.\<close>

definition py_float :: "string \<Rightarrow> pyfloat option" where
  "py_float v =
     (case remove_underscores (CHR 0x00) (strip_with is_num_space v) of
        None \<Rightarrow> None
      | Some s \<Rightarrow>
          (let (neg, body) = split_sign s
           in case parse_decimal body of
                Some q \<Rightarrow> Some (round64 (if neg then - q else q))
              | None \<Rightarrow> parse_inf_or_nan neg body))"

text \<open>\<open>int(x)\<close> on a float truncates towards zero.\<close>

definition py_int :: "pyfloat \<Rightarrow> py_error + int" where
  "py_int x =
     (case x of Fin q \<Rightarrow> Inr (if 0 \<le> q then \<lfloor>q\<rfloor> else \<lceil>q\<rceil>)
      | PosInf \<Rightarrow> Inl OverflowError | NegInf \<Rightarrow> Inl OverflowError
      | NaN \<Rightarrow> Inl ValueError)"


text \<open>\<open>int(v)\<close> on a string, in base 10; \<open>None\<close> is \<open>ValueError\<close>.\<close>

definition int_of_string :: "string \<Rightarrow> int option" where
  "int_of_string v =
     (case remove_underscores (CHR 0x00) (strip_with is_num_space v) of
        None \<Rightarrow> None
      | Some s \<Rightarrow>
          (let (neg, body) = split_sign s
           in if body \<noteq> [] \<and> list_all is_digit body
              then Some (if neg then - int (digits_val body) else int (digits_val body))
              else None))"

text \<open>\<open>str(i)\<close> on an integer.\<close>

fun str_nat :: "nat \<Rightarrow> string" where
  "str_nat n =
     (if n < 10 then [char_of (48 + n)]
      else str_nat (n div 10) @ [char_of (48 + n mod 10)])"

declare str_nat.simps [simp del]

definition str :: "int \<Rightarrow> string" where
  "str i = (if i < 0 then CHR ''-'' # str_nat (nat (- i)) else str_nat (nat i))"

text \<open>\<open>'%ws' % s\<close>: the text, with blanks on the left up to the width \<open>w\<close>.\<close>

definition fmt_s :: "nat \<Rightarrow> string \<Rightarrow> string" where
  "fmt_s w s = replicate (w - length s) (CHR '' '') @ s"

text \<open>\<open>s.replace(c, r)\<close> for a single character \<open>c\<close>.\<close>

definition replace :: "char \<Rightarrow> string \<Rightarrow> string \<Rightarrow> string" where
  "replace c r s = concat (map (\<lambda>x. if x = c then r else [x]) s)"

subsection \<open>Lists: indexing and slicing\<close>

text \<open>\<open>xs[i]\<close>: a negative index counts from the end, and out of range is an error.\<close>

definition getitem :: "'a list \<Rightarrow> int \<Rightarrow> py_error + 'a" where
  "getitem xs i =
     (if 0 \<le> i \<and> i < int (length xs) then Inr (xs ! nat i)
      else if - int (length xs) \<le> i \<and> i < 0 then Inr (xs ! nat (int (length xs) + i))
      else Inl IndexError)"

text \<open>\<open>xs[a:b]\<close>: negative bounds count from the end, and both are clamped.\<close>

definition clamp_index :: "nat \<Rightarrow> int \<Rightarrow> nat" where
  "clamp_index n i = (if i < 0 then nat (int n + i) else min n (nat i))"

definition slice :: "'a list \<Rightarrow> int \<Rightarrow> int \<Rightarrow> 'a list" where
  "slice xs a b = take (clamp_index (length xs) b - clamp_index (length xs) a)
                       (drop (clamp_index (length xs) a) xs)"

text \<open>\<open>l[a:b]\<close> for the constant column ranges of a record.\<close>

definition substr :: "string \<Rightarrow> nat \<Rightarrow> nat \<Rightarrow> string" where
  "substr l a b = take (b - a) (drop a l)"

text \<open>\<open>xs.index(a)\<close>: the first position of \<open>a\<close>, or \<open>ValueError\<close>.\<close>

fun index :: "'a list \<Rightarrow> 'a \<Rightarrow> py_error + nat" where
  "index [] a = Inl ValueError"
| "index (x # xs) a =
     (if x = a then Inr 0
      else case index xs a of Inl e \<Rightarrow> Inl e | Inr i \<Rightarrow> Inr (Suc i))"

text \<open>A list comprehension whose elements may raise: the first error wins.\<close>

fun collect :: "('e + 'a) list \<Rightarrow> 'e + 'a list" where
  "collect [] = Inr []"
| "collect (r # rs) =
     (case r of Inl e \<Rightarrow> Inl e
      | Inr x \<Rightarrow> (case collect rs of Inl e \<Rightarrow> Inl e | Inr xs \<Rightarrow> Inr (x # xs)))"

subsection \<open>Float arithmetic of \<open>find_yields\<close>\<close>

text \<open>
  \<open>NP/3.0\<close> converts the integer to a float (\<open>OverflowError\<close> when it is too
  large), and divides; \<open>np.ceil\<close> rounds up to an integral float.
\<close>

definition float_of_int :: "int \<Rightarrow> py_error + pyfloat" where
  "float_of_int n =
     (case round64 (of_int n) of Fin q \<Rightarrow> Inr (Fin q) | _ \<Rightarrow> Inl OverflowError)"

definition div_by_three :: "pyfloat \<Rightarrow> pyfloat" where
  "div_by_three x = (case x of Fin q \<Rightarrow> round64 (q / 3) | _ \<Rightarrow> x)"

definition np_ceil :: "pyfloat \<Rightarrow> pyfloat" where
  "np_ceil x = (case x of Fin q \<Rightarrow> Fin (of_int \<lceil>q\<rceil>) | _ \<Rightarrow> x)"

section \<open>The reader\<close>

text \<open>The column ranges of \<open>slices['data']\<close>.\<close>

definition data_slices :: "(nat \<times> nat) list" where
  "data_slices = [(0, 11), (11, 22), (22, 33), (33, 44), (44, 55), (55, 66)]"

text \<open>\<open>read_float\<close>: a blank field is 0; ENDF may omit the \<open>e\<close> of the exponent.\<close>

definition read_float :: "string \<Rightarrow> py_error + pyfloat" where
  "read_float v =
     (if strip v = [] then Inr (Fin 0)
      else case py_float v of
             Some x \<Rightarrow> Inr x
           | None \<Rightarrow>
               (case v of [] \<Rightarrow> Inl IndexError
                | c # cs \<Rightarrow>
                    (case py_float (c # replace (CHR ''-'') ''e-''
                                          (replace (CHR ''+'') ''e+'' cs)) of
                       Some x \<Rightarrow> Inr x
                     | None \<Rightarrow> Inl ValueError)))"

definition read_line :: "string \<Rightarrow> py_error + pyfloat list" where
  "read_line l = collect (map (\<lambda>(a, b). read_float (substr l a b)) data_slices)"

text \<open>The loop of \<open>read_table\<close> over the data lines, appending to \<open>x\<close> and \<open>y\<close>.\<close>

fun table_loop ::
  "string list \<Rightarrow> pyfloat list \<Rightarrow> pyfloat list \<Rightarrow> py_error + (pyfloat list \<times> pyfloat list)"
where
  "table_loop [] x y = Inr (x, y)"
| "table_loop (l # ls) x y =
     (case read_line l of Inl e \<Rightarrow> Inl e
      | Inr f \<Rightarrow> table_loop ls (x @ [f ! 0, f ! 2, f ! 4]) (y @ [f ! 1, f ! 3, f ! 5]))"

definition read_table :: "string list \<Rightarrow> py_error + (pyfloat list \<times> pyfloat list)" where
  "read_table lines =
     (case getitem lines 1 of Inl e \<Rightarrow> Inl e
      | Inr l1 \<Rightarrow>
     (case read_line l1 of Inl e \<Rightarrow> Inl e
      | Inr f \<Rightarrow>
     (case py_int (f ! 4) of Inl e \<Rightarrow> Inl e
      | Inr nS \<Rightarrow>
     (case py_int (f ! 5) of Inl e \<Rightarrow> Inl e
      | Inr nP \<Rightarrow>
     (case table_loop (drop 3 lines) [] [] of Inl e \<Rightarrow> Inl e
      | Inr (x, y) \<Rightarrow> Inr (slice x 0 nP, slice y 0 nP))))))"

text \<open>\<open>find_section\<close>: a forward and a backward scan for the tag in columns 70 to 74.\<close>

definition find_section :: "string list \<Rightarrow> int \<Rightarrow> int \<Rightarrow> py_error + string list" where
  "find_section lines MF MT =
     (let v = map (\<lambda>l. substr l 70 75) lines;
          n = length v;
          cmpstr = fmt_s 2 (str MF) @ fmt_s 3 (str MT)
      in case index v cmpstr of Inl e \<Rightarrow> Inl e
         | Inr i0 \<Rightarrow>
             (case index (rev v) cmpstr of Inl e \<Rightarrow> Inl e
              | Inr j \<Rightarrow> Inr (slice lines (int i0) (int n - int j))))"

text \<open>The tag of a record as \<open>list_content\<close> decodes it: MF and MT as integers.\<close>

definition decode_tag :: "string \<Rightarrow> int option \<times> int option" where
  "decode_tag l = (int_of_string (substr l 70 72), int_of_string (substr l 72 75))"

definition get_num_subsections :: "string list \<Rightarrow> py_error + int" where
  "get_num_subsections lines =
     (case getitem lines 0 of Inl e \<Rightarrow> Inl e
      | Inr l \<Rightarrow> (case read_line l of Inl e \<Rightarrow> Inl e | Inr values \<Rightarrow> py_int (values ! 4)))"

text \<open>
  \<open>parse_header\<close>: unpacking into six names raises \<open>ValueError\<close> on any other
  length; the conversions run from left to right.
\<close>

definition parse_header ::
  "string \<Rightarrow> py_error + (int \<times> pyfloat \<times> int \<times> int \<times> int \<times> int)"
where
  "parse_header line =
     (case read_line line of Inl err \<Rightarrow> Inl err
      | Inr [a, b, c, d, e, f] \<Rightarrow>
          (case py_int a of Inl err \<Rightarrow> Inl err | Inr i_a \<Rightarrow>
          (case py_int c of Inl err \<Rightarrow> Inl err | Inr i_c \<Rightarrow>
          (case py_int d of Inl err \<Rightarrow> Inl err | Inr i_d \<Rightarrow>
          (case py_int e of Inl err \<Rightarrow> Inl err | Inr i_e \<Rightarrow>
          (case py_int f of Inl err \<Rightarrow> Inl err | Inr i_f \<Rightarrow>
             Inr (i_a, b, i_c, i_d, i_e, i_f))))))
      | Inr _ \<Rightarrow> Inl ValueError)"

text \<open>\<open>int(np.ceil(NP/3.0))\<close>.\<close>

definition data_lines_of :: "int \<Rightarrow> py_error + int" where
  "data_lines_of NP =
     (case float_of_int NP of Inl e \<Rightarrow> Inl e
      | Inr x \<Rightarrow> py_int (np_ceil (div_by_three x)))"

type_synonym yield_dict = "(string \<times> string list) list"

text \<open>
  The body of the \<open>while\<close> loop of \<open>find_yields\<close> up to the assignment to the
  dictionary: the key, the block stored under it, and the next \<open>line_num\<close>.
\<close>

definition yield_step ::
  "string list \<Rightarrow> string \<Rightarrow> int \<Rightarrow> py_error + (string \<times> string list \<times> int)"
where
  "yield_step lines head_line line_num =
     (case getitem lines (line_num - 1) of Inl e \<Rightarrow> Inl e
      | Inr l \<Rightarrow>
     (case parse_header l of Inl e \<Rightarrow> Inl e
      | Inr (ZAP, AWR, LIP, LAW, NR, NP) \<Rightarrow>
          if NR > 1 then
            Inl (SystemExit ''error: can not yet handle multiple interpolation ranges'')
          else if LAW > 0 then
            Inl (SystemExit
              (''error: can only handle LAW=0 (no angular data) for now, file had LAW: ''
               @ str LAW))
          else
            (case data_lines_of NP of Inl e \<Rightarrow> Inl e
             | Inr data_lines \<Rightarrow>
                 (let yield_section =
                        slice lines (line_num - 1) (line_num - 1 + data_lines + 2);
                      key = str ZAP;
                      key = (if LIP > 0 then key @ ''m'' else key)
                  in Inr (key, head_line # yield_section, line_num + (data_lines + 2))))))"

text \<open>
  The loop itself. A Python \<open>dict\<close> keeps its keys in the order of their first
  insertion, and an assignment to a key that is present replaces its value:
  \<open>AList.update\<close>. A loop that runs forever has the value \<open>None\<close>.
\<close>

partial_function (option) find_yields_loop ::
  "string list \<Rightarrow> string \<Rightarrow> int \<Rightarrow> yield_dict \<Rightarrow> (py_error + yield_dict) option"
where
  "find_yields_loop lines head_line line_num yield_dict =
     (if line_num \<le> int (length lines) then
        (case yield_step lines head_line line_num of
           Inl e \<Rightarrow> Some (Inl e)
         | Inr (key, block, next_line) \<Rightarrow>
             find_yields_loop lines head_line next_line
               (AList.update key block yield_dict))
      else Some (Inr yield_dict))"

text \<open>\<open>find_yields\<close> returns the section itself, or the dictionary.\<close>

datatype yields = Section "string list" | YieldDict yield_dict

definition find_yields :: "string list \<Rightarrow> (py_error + yields) option" where
  "find_yields tape =
     (case find_section tape 6 5 of Inl e \<Rightarrow> Some (Inl e)
      | Inr lines \<Rightarrow>
     (case get_num_subsections lines of Inl e \<Rightarrow> Some (Inl e)
      | Inr n \<Rightarrow>
          if n = 0 then Some (Inr (Section lines))
          else
            (case getitem lines (1 - 1) of Inl e \<Rightarrow> Some (Inl e)
             | Inr head_line \<Rightarrow>
                 map_option (map_sum id YieldDict)
                   (find_yields_loop lines head_line (1 + 1) []))))"


text \<open>
  The subsections the loop parses, in order: the same loop, recording each pair of
  key and block that it assigns instead of assigning it. \<open>dict_of\<close> replays the
  assignments on an empty dictionary.
\<close>

partial_function (option) parsed_subsections ::
  "string list \<Rightarrow> string \<Rightarrow> int \<Rightarrow> (string \<times> string list) list
     \<Rightarrow> (py_error + (string \<times> string list) list) option"
where
  "parsed_subsections lines head_line line_num acc =
     (if line_num \<le> int (length lines) then
        (case yield_step lines head_line line_num of
           Inl e \<Rightarrow> Some (Inl e)
         | Inr (key, block, next_line) \<Rightarrow>
             parsed_subsections lines head_line next_line (acc @ [(key, block)]))
      else Some (Inr acc))"

definition dict_of :: "(string \<times> string list) list \<Rightarrow> yield_dict" where
  "dict_of subs = foldl (\<lambda>d (key, block). AList.update key block d) [] subs"

section \<open>Properties of the host-language operations\<close>

subsection \<open>Rounding to binary64\<close>

lemma pow2_powi: "pow2 k = 2 powi k"
  by (simp add: pow2_def power_int_def field_simps)

lemma pow2_pos: "0 < pow2 k"
  by (simp add: pow2_powi)

lemma pow2_add: "pow2 (a + b) = pow2 a * pow2 b"
  by (simp add: pow2_powi power_int_add)

lemma pow2_mono: "a \<le> b \<Longrightarrow> pow2 a \<le> pow2 b"
  by (simp add: pow2_powi power_int_increasing)

lemma pow2_less_cancel: "pow2 a < pow2 b \<Longrightarrow> a < b"
  using pow2_mono [of b a] by (cases "a < b") auto

lemma pow2_of_int_le: "0 \<le> k \<Longrightarrow> 2 ^ nat k \<le> a \<Longrightarrow> pow2 k \<le> of_int a"
proof -
  assume "0 \<le> k" and "2 ^ nat k \<le> a"
  then have "rat_of_int (2 ^ nat k) \<le> of_int a" by (simp only: of_int_le_iff)
  then show ?thesis using \<open>0 \<le> k\<close> by (simp add: pow2_def)
qed

lemma of_int_less_pow2: "0 \<le> k \<Longrightarrow> a < 2 ^ nat k \<Longrightarrow> of_int a < pow2 k"
proof -
  assume "0 \<le> k" and "a < 2 ^ nat k"
  then have "rat_of_int a < of_int (2 ^ nat k)" by (simp only: of_int_less_iff)
  then show ?thesis using \<open>0 \<le> k\<close> by (simp add: pow2_def)
qed

lemma ilog2_bounds:
  assumes "0 < q"
  shows "pow2 (ilog2 q) \<le> q \<and> q < pow2 (ilog2 q + 1)"
proof -
  obtain a b where ab: "quotient_of q = (a, b)" by (cases "quotient_of q")
  have b: "0 < b" using ab quotient_of_denom_pos by blast
  have q: "q = of_int a / of_int b" using ab quotient_of_div by blast
  have a: "0 < a" using assms b q by (simp add: zero_less_divide_iff)
  define e where "e = bitlen a - bitlen b"
  have la: "1 \<le> bitlen a" and lb: "1 \<le> bitlen b"
    using a b by (auto simp: bitlen_alt_def)
  have ra1: "pow2 (bitlen a - 1) \<le> of_int a"
    using bitlen_bounds [OF a] la by (intro pow2_of_int_le) auto
  have ra2: "of_int a < pow2 (bitlen a)"
    using bitlen_bounds [OF a] la by (intro of_int_less_pow2) auto
  have rb1: "pow2 (bitlen b - 1) \<le> of_int b"
    using bitlen_bounds [OF b] lb by (intro pow2_of_int_le) auto
  have rb2: "of_int b < pow2 (bitlen b)"
    using bitlen_bounds [OF b] lb by (intro of_int_less_pow2) auto
  have up: "q < pow2 (e + 1)"
  proof -
    have "pow2 (e + 1) * pow2 (bitlen b - 1) = pow2 (bitlen a)"
      by (simp add: pow2_add [symmetric] e_def)
    then have "of_int a < pow2 (e + 1) * pow2 (bitlen b - 1)"
      using ra2 by simp
    also have "\<dots> \<le> pow2 (e + 1) * of_int b"
      using rb1 pow2_pos [of "e + 1"] by simp
    finally show ?thesis using b by (simp add: q pos_divide_less_eq)
  qed
  have low: "pow2 (e - 1) \<le> q"
  proof -
    have "pow2 (e - 1) * of_int b \<le> pow2 (e - 1) * pow2 (bitlen b)"
      using rb2 pow2_pos [of "e - 1"] by simp
    also have "\<dots> = pow2 (bitlen a - 1)"
      by (simp add: pow2_add [symmetric] e_def)
    finally show ?thesis using b ra1 by (simp add: q pos_le_divide_eq)
  qed
  have il: "ilog2 q = (if pow2 e \<le> q then e else e - 1)"
    by (simp add: ilog2_def ab e_def Let_def)
  show ?thesis
  proof (cases "pow2 e \<le> q")
    case True
    then show ?thesis using up il by simp
  next
    case False
    then show ?thesis using low il by simp
  qed
qed

lemma ilog2_unique:
  assumes "pow2 e \<le> q" and "q < pow2 (e + 1)"
  shows "ilog2 q = e"
proof -
  have q: "0 < q" using assms(1) pow2_pos [of e] by linarith
  have 1: "pow2 (ilog2 q) < pow2 (e + 1)" using ilog2_bounds [OF q] assms by linarith
  have 2: "pow2 e < pow2 (ilog2 q + 1)" using ilog2_bounds [OF q] assms by linarith
  show ?thesis using pow2_less_cancel [OF 1] pow2_less_cancel [OF 2] by linarith
qed

lemma round_half_even_int: "round_half_even (of_int k) = k"
  by (simp add: round_half_even_def)

lemma round_half_even_near: "\<bar>of_int (round_half_even x) - x\<bar> \<le> 1 / 2"
proof -
  have "of_int \<lfloor>x\<rfloor> \<le> x" and "x < of_int \<lfloor>x\<rfloor> + 1" by linarith+
  then show ?thesis by (auto simp: round_half_even_def Let_def)
qed

lemma round_half_even_nonneg: "0 \<le> x \<Longrightarrow> 0 \<le> round_half_even x"
  by (auto simp: round_half_even_def Let_def)

lemma round64_int:
  assumes "\<bar>n\<bar> < 2 ^ 53"
  shows "round64 (of_int n) = Fin (of_int n)"
proof (cases "n = 0")
  case True
  then show ?thesis by (simp add: round64_def)
next
  case False
  define a :: rat where "a = of_int \<bar>n\<bar>"
  define e where "e = ilog2 a"
  have "1 \<le> \<bar>n\<bar>" using False by linarith
  then have a1: "1 \<le> a" unfolding a_def by (simp only: of_int_1_le_iff)
  have a53: "a < pow2 53"
    unfolding a_def using assms by (intro of_int_less_pow2) auto
  have pos: "0 < a" using a1 by linarith
  have lo: "pow2 e \<le> a" and hi: "a < pow2 (e + 1)"
    using ilog2_bounds [OF pos] by (auto simp: e_def)
  have "pow2 e < pow2 53" using lo a53 by linarith
  then have e52: "e \<le> 52" using pow2_less_cancel [of e 53] by linarith
  have "pow2 0 < pow2 (e + 1)" using a1 hi by (simp add: pow2_def)
  then have e0: "0 \<le> e" using pow2_less_cancel [of 0 "e + 1"] by linarith
  have mx: "max e (- 1022) = e" using e0 by simp
  define u where "u = pow2 (e - 52)"
  have u: "u = 1 / 2 ^ nat (52 - e)"
    using e52 by (cases "e = 52") (auto simp: u_def pow2_def)
  have au: "a / u = of_int (\<bar>n\<bar> * 2 ^ nat (52 - e))"
    by (simp add: u a_def)
  have r: "of_int (round_half_even (a / u)) * u = a"
    unfolding au round_half_even_int by (simp add: u a_def)
  have lt: "\<not> pow2 1024 \<le> a"
    using a53 pow2_mono [of 53 1024] by linarith
  have abs: "\<bar>rat_of_int n\<bar> = a" by (simp add: a_def)
  have nz: "(of_int n :: rat) \<noteq> 0" using False by simp
  have "round64 (of_int n) = Fin (if rat_of_int n < 0 then - a else a)"
    unfolding round64_def Let_def abs e_def [symmetric] mx u_def [symmetric] r
    using nz lt by simp
  moreover have "(if rat_of_int n < 0 then - a else a) = of_int n"
    by (simp add: a_def)
  ultimately show ?thesis by simp
qed

lemma round64_near:
  assumes lo: "pow2 (- 1022) \<le> \<bar>q\<bar>" and hi: "\<bar>q\<bar> < pow2 k" and k: "k \<le> 1023"
  shows "\<exists>r. round64 q = Fin r \<and> \<bar>r - q\<bar> \<le> pow2 (k - 54)"
proof -
  define a where "a = \<bar>q\<bar>"
  define e where "e = ilog2 a"
  have pos: "0 < a" using lo pow2_pos [of "- 1022"] by (simp add: a_def)
  have elo: "pow2 e \<le> a" and ehi: "a < pow2 (e + 1)"
    using ilog2_bounds [OF pos] by (auto simp: e_def)
  have "pow2 e < pow2 k" using elo hi by (simp add: a_def)
  then have ek: "e \<le> k - 1" using pow2_less_cancel [of e k] by linarith
  have "pow2 (- 1022) < pow2 (e + 1)" using lo ehi by (simp add: a_def)
  then have e1022: "- 1022 \<le> e" using pow2_less_cancel [of "- 1022" "e + 1"] by linarith
  have mx: "max e (- 1022) = e" using e1022 by simp
  define u where "u = pow2 (e - 52)"
  have upos: "0 < u" by (simp add: u_def pow2_pos)
  define n where "n = round_half_even (a / u)"
  define r where "r = of_int n * u"
  have "\<bar>of_int n - a / u\<bar> \<le> 1 / 2" unfolding n_def by (rule round_half_even_near)
  then have "\<bar>of_int n - a / u\<bar> * u \<le> 1 / 2 * u"
    using upos by (simp only: mult_le_cancel_right_pos)
  moreover have "(of_int n - a / u) * u = r - a"
    using upos by (simp add: r_def left_diff_distrib)
  then have "\<bar>of_int n - a / u\<bar> * u = \<bar>r - a\<bar>"
    using upos abs_mult_pos [of u "of_int n - a / u"] by simp
  ultimately have near: "\<bar>r - a\<bar> \<le> u / 2" by simp
  have "u = pow2 (e - 53) * 2"
    using pow2_add [of "e - 53" 1] by (simp add: u_def pow2_def)
  then have u2: "u / 2 = pow2 (e - 53)" by simp
  have "pow2 (e - 53) \<le> pow2 (k - 54)" using ek by (intro pow2_mono) simp
  then have near': "\<bar>r - a\<bar> \<le> pow2 (k - 54)" using near u2 by simp
  have "pow2 (k - 54) \<le> pow2 k" by (intro pow2_mono) simp
  then have "r < pow2 k + pow2 k" using near' hi by (simp add: a_def)
  moreover have "pow2 k + pow2 k = pow2 (k + 1)"
    using pow2_add [of k 1] by (simp add: pow2_def)
  moreover have "pow2 (k + 1) \<le> pow2 1024" using k by (intro pow2_mono) simp
  ultimately have lt: "\<not> pow2 1024 \<le> r" by linarith
  have nz: "q \<noteq> 0" using pos by (simp add: a_def)
  have eq: "round64 q = Fin (if q < 0 then - r else r)"
    unfolding round64_def Let_def a_def [symmetric] e_def [symmetric] mx u_def [symmetric]
      n_def [symmetric] r_def [symmetric]
    using nz lt by simp
  have "\<bar>(if q < 0 then - r else r) - q\<bar> = \<bar>r - a\<bar>"
    by (auto simp: a_def)
  then show ?thesis using eq near' by simp
qed

lemma round64_nonneg:
  assumes "0 \<le> q"
  shows "round64 q = PosInf \<or> (\<exists>r. round64 q = Fin r \<and> 0 \<le> r)"
proof (cases "q = 0")
  case True
  then show ?thesis by (simp add: round64_def)
next
  case False
  then have q: "0 < q" using assms by simp
  define u where "u = pow2 (max (ilog2 \<bar>q\<bar>) (- 1022) - 52)"
  have upos: "0 < u" by (simp add: u_def pow2_pos)
  have "0 \<le> \<bar>q\<bar> / u" using upos by simp
  then have "0 \<le> round_half_even (\<bar>q\<bar> / u)" by (rule round_half_even_nonneg)
  then have "0 \<le> rat_of_int (round_half_even (\<bar>q\<bar> / u)) * u" using upos by simp
  then show ?thesis
    using q unfolding round64_def Let_def u_def [symmetric] by auto
qed

lemma float_of_int_small: "\<bar>n\<bar> < 2 ^ 53 \<Longrightarrow> float_of_int n = Inr (Fin (of_int n))"
  by (simp add: float_of_int_def round64_int)

lemma py_int_ceil: "py_int (np_ceil (Fin r)) = Inr \<lceil>r\<rceil>"
  by (simp add: py_int_def np_ceil_def)

lemma data_lines_nonneg:
  assumes "0 \<le> NP" and "data_lines_of NP = Inr d"
  shows "0 \<le> d"
proof -
  have "0 \<le> rat_of_int NP" using assms(1) by simp
  from round64_nonneg [OF this] assms(2)
  obtain r where r: "round64 (of_int NP) = Fin r" "0 \<le> r"
    by (auto simp: data_lines_of_def float_of_int_def)
  have "0 \<le> r / 3" using r(2) by simp
  from round64_nonneg [OF this] assms(2) r(1)
  obtain r' where r': "round64 (r / 3) = Fin r'" "0 \<le> r'"
    by (auto simp: data_lines_of_def float_of_int_def div_by_three_def np_ceil_def py_int_def)
  have "data_lines_of NP = Inr \<lceil>r'\<rceil>"
    using r(1) r'(1) py_int_ceil [of r']
    by (simp add: data_lines_of_def float_of_int_def div_by_three_def)
  then have "d = \<lceil>r'\<rceil>" using assms(2) by simp
  moreover have "0 \<le> \<lceil>r'\<rceil>" using r'(2) by simp
  ultimately show ?thesis by simp
qed

lemma ceiling_third_near:
  assumes nd: "\<not> 3 dvd n" and near: "\<bar>r - rat_of_int n / 3\<bar> \<le> 1 / 8"
  shows "\<lceil>r\<rceil> = \<lceil>rat_of_int n / 3\<rceil>"
proof -
  define k where "k = n div 3"
  define j where "j = n mod 3"
  have n: "n = 3 * k + j" by (simp add: k_def j_def)
  have j: "j = 1 \<or> j = 2"
  proof -
    have "0 \<le> j" "j < 3" by (simp_all add: j_def)
    moreover have "j \<noteq> 0" using nd by (simp add: j_def dvd_eq_mod_eq_0)
    ultimately show ?thesis by linarith
  qed
  have q: "rat_of_int n / 3 = of_int k + of_int j / 3" by (simp add: n)
  have lo: "of_int k + 1 / 3 \<le> rat_of_int n / 3" and hi: "rat_of_int n / 3 \<le> of_int k + 2 / 3"
    using j by (auto simp: q)
  have c1: "\<lceil>rat_of_int n / 3\<rceil> = k + 1"
    using lo hi by (intro ceiling_unique) auto
  have "rat_of_int n / 3 - 1 / 8 \<le> r" and "r \<le> rat_of_int n / 3 + 1 / 8"
    using near by linarith+
  then have "of_int k < r" and "r < of_int k + 1"
    using lo hi by linarith+
  then have c2: "\<lceil>r\<rceil> = k + 1" by (intro ceiling_unique) auto
  show ?thesis using c1 c2 by simp
qed

lemma data_lines_exact:
  assumes "\<bar>NP\<bar> < 3 * 2 ^ 51"
  shows "data_lines_of NP = Inr \<lceil>rat_of_int NP / 3\<rceil>"
proof -
  have "\<bar>NP\<bar> < 2 ^ 53" using assms by simp
  then have f: "float_of_int NP = Inr (Fin (of_int NP))" by (rule float_of_int_small)
  have d: "data_lines_of NP = py_int (np_ceil (round64 (rat_of_int NP / 3)))"
    by (simp add: data_lines_of_def f div_by_three_def)
  show ?thesis
  proof (cases "3 dvd NP")
    case True
    then obtain m where m: "NP = 3 * m" by (auto simp: dvd_def)
    have "\<bar>m\<bar> < 2 ^ 53" using assms m by simp
    then have "round64 (rat_of_int NP / 3) = Fin (of_int m)"
      using round64_int [of m] by (simp add: m)
    then show ?thesis using d py_int_ceil [of "of_int m"] by (simp add: m)
  next
    case False
    then have "NP \<noteq> 0" by auto
    then have "1 \<le> \<bar>NP\<bar>" by linarith
    then have "1 \<le> rat_of_int \<bar>NP\<bar>" by (simp only: of_int_1_le_iff)
    then have "1 / 3 \<le> \<bar>rat_of_int NP / 3\<bar>" by simp
    moreover have "pow2 (- 1022) \<le> pow2 (- 2)" by (intro pow2_mono) simp
    moreover have "pow2 (- 2) = 1 / 4" by (simp add: pow2_def)
    ultimately have lo: "pow2 (- 1022) \<le> \<bar>rat_of_int NP / 3\<bar>" by linarith
    have "rat_of_int \<bar>NP\<bar> < of_int (3 * 2 ^ 51)" using assms by (simp only: of_int_less_iff)
    then have "\<bar>rat_of_int NP / 3\<bar> < 2 ^ 51" by simp
    then have hi: "\<bar>rat_of_int NP / 3\<bar> < pow2 51" by (simp add: pow2_def)
    from round64_near [OF lo hi]
    obtain r where r: "round64 (rat_of_int NP / 3) = Fin r"
      and near: "\<bar>r - rat_of_int NP / 3\<bar> \<le> pow2 (51 - 54)" by auto
    have "pow2 (51 - 54) = 1 / 8" by (simp add: pow2_def)
    then have near8: "\<bar>r - rat_of_int NP / 3\<bar> \<le> 1 / 8"
      using near by (simp only:)
    have "\<lceil>r\<rceil> = \<lceil>rat_of_int NP / 3\<rceil>"
      by (rule ceiling_third_near [OF False near8])
    then show ?thesis using d r py_int_ceil [of r] by simp
  qed
qed

lemma round_half_even_frac:
  assumes "0 < b"
  shows "round_half_even (of_int a / of_int b) =
     (if 2 * (a mod b) < b then a div b
      else if b < 2 * (a mod b) then a div b + 1
      else if even (a div b) then a div b else a div b + 1)"
proof -
  have f: "\<lfloor>rat_of_int a / of_int b\<rfloor> = a div b" by (rule floor_divide_of_int_eq)
  have "rat_of_int a = of_int (a div b * b + a mod b)" by simp
  also have "\<dots> = of_int (a div b) * of_int b + of_int (a mod b)"
    by (simp only: of_int_add of_int_mult)
  finally have "rat_of_int a / of_int b =
      (of_int (a div b) * of_int b + of_int (a mod b)) / of_int b" by simp
  then have "rat_of_int a / of_int b = of_int (a div b) + of_int (a mod b) / of_int b"
    using assms by (simp add: add_divide_distrib)
  then have d: "rat_of_int a / of_int b - of_int (a div b) = of_int (a mod b) / of_int b"
    by simp
  have lt: "(rat_of_int (a mod b) / of_int b < 1 / 2) = (2 * (a mod b) < b)"
  proof -
    have "(rat_of_int (a mod b) / of_int b < 1 / 2) = (rat_of_int (2 * (a mod b)) < of_int b)"
      using assms by (simp add: field_simps)
    then show ?thesis by (simp only: of_int_less_iff)
  qed
  have gt: "(1 / 2 < rat_of_int (a mod b) / of_int b) = (b < 2 * (a mod b))"
  proof -
    have "(1 / 2 < rat_of_int (a mod b) / of_int b) = (rat_of_int b < of_int (2 * (a mod b)))"
      using assms by (simp add: field_simps)
    then show ?thesis by (simp only: of_int_less_iff)
  qed
  show ?thesis by (simp only: round_half_even_def Let_def f d lt gt)
qed

lemma round64_eval:
  assumes "q \<noteq> 0" and "pow2 e \<le> \<bar>q\<bar>" and "\<bar>q\<bar> < pow2 (e + 1)"
  shows "round64 q =
     (let r = of_int (round_half_even (\<bar>q\<bar> / pow2 (max e (- 1022) - 52)))
                * pow2 (max e (- 1022) - 52)
      in if pow2 1024 \<le> r then (if q < 0 then NegInf else PosInf)
         else Fin (if q < 0 then - r else r))"
  using assms(1) by (simp only: round64_def Let_def ilog2_unique [OF assms(2,3)] if_False)

lemma round64_numeral:
  "numeral k < (2::int) ^ 53 \<Longrightarrow> round64 (numeral k) = Fin (numeral k)"
  using round64_int [of "numeral k"] by simp

lemma round64_0: "round64 0 = Fin 0"
  by (simp add: round64_def)

lemma round64_1: "round64 1 = Fin 1"
  using round64_int [of 1] by simp

lemma round64_neg_numeral:
  "numeral k < (2::int) ^ 53 \<Longrightarrow> round64 (- numeral k) = Fin (- numeral k)"
  using round64_int [of "- numeral k"] by simp

text \<open>The equations that evaluate \<open>float\<close> and \<open>read_line\<close> on a given string.\<close>

lemmas float_eval =
  py_float_def parse_decimal_def parse_exponent_def is_digit_def digits_val_def
  strip_with_def is_num_space_def split_sign_def pow10_def parse_inf_or_nan_def tolower_def
  round64_numeral round64_0 round64_1 round64_neg_numeral

lemmas line_eval =
  read_line_def data_slices_def substr_def read_float_def strip_def isspace_def replace_def
  float_eval

subsection \<open>Strings and lists\<close>

lemma strip_with_pad:
  assumes "\<forall>x\<in>set r. p x"
  shows "strip_with p (s @ r) = strip_with p s"
proof (cases "\<forall>x\<in>set s. p x")
  case True
  then have "dropWhile p (s @ r) = []" and "dropWhile p s = []"
    using assms by auto
  then show ?thesis by (simp only: strip_with_def)
next
  case False
  then have "dropWhile p (s @ r) = dropWhile p s @ r"
    by (auto simp: dropWhile_append1)
  moreover have "dropWhile p (rev r @ rev (dropWhile p s)) = dropWhile p (rev (dropWhile p s))"
    using assms by (intro dropWhile_append2) auto
  ultimately show ?thesis by (simp add: strip_with_def)
qed

lemma replace_append: "replace c r (s @ t) = replace c r s @ replace c r t"
  by (simp add: replace_def)

lemma replace_id: "c \<notin> set s \<Longrightarrow> replace c r s = s"
  by (induction s) (auto simp: replace_def)

lemma replace_Cons: "replace c r (x # s) = (if x = c then r else [x]) @ replace c r s"
  by (simp add: replace_def)

lemma py_float_pad:
  assumes "\<forall>x\<in>set r. is_num_space x"
  shows "py_float (s @ r) = py_float s"
  by (simp add: py_float_def strip_with_pad [OF assms])

lemma blank_space: "isspace (CHR '' '')" "is_num_space (CHR '' '')"
  by (simp_all add: isspace_def is_num_space_def)

lemma read_float_pad: "read_float (v @ replicate k (CHR '' '')) = read_float v"
proof -
  let ?r = "replicate k (CHR '' '')"
  have sp: "\<forall>x\<in>set ?r. isspace x" and ns: "\<forall>x\<in>set ?r. is_num_space x"
    using blank_space by auto
  have s: "strip (v @ ?r) = strip v"
    by (simp add: strip_def strip_with_pad [OF sp])
  show ?thesis
  proof (cases v)
    case Nil
    have "dropWhile isspace ?r = []"
      using sp by (simp only: dropWhile_eq_Nil_conv)
    then have "strip ?r = []"
      by (simp add: strip_def strip_with_def)
    then have "read_float ?r = Inr (Fin 0)"
      by (simp only: read_float_def simp_thms if_True)
    moreover have "read_float [] = Inr (Fin 0)"
      by (simp add: read_float_def strip_def strip_with_def)
    ultimately show ?thesis
      by (simp only: Nil append_Nil)
  next
    case (Cons c cs)
    define fb where "fb = (\<lambda>t. replace (CHR ''-'') ''e-'' (replace (CHR ''+'') ''e+'' t))"
    have "fb (cs @ ?r) = fb cs @ ?r"
      by (simp add: fb_def replace_append replace_id)
    then have "py_float (c # fb (cs @ ?r)) = py_float ((c # fb cs) @ ?r)"
      by simp
    also have "\<dots> = py_float (c # fb cs)"
      by (rule py_float_pad [OF ns])
    finally have fbp: "py_float (c # fb (cs @ ?r)) = py_float (c # fb cs)" .
    have "read_float ((c # cs) @ ?r) = read_float (c # cs)"
      using s py_float_pad [OF ns, of v] fbp unfolding Cons fb_def
      by (simp add: read_float_def split: option.split)
    then show ?thesis using Cons by simp
  qed
qed

lemma substr_pad: "\<exists>j. substr (l @ replicate k c) a b = substr l a b @ replicate j c"
  by (auto simp: substr_def)

lemma read_line_pad: "read_line (l @ replicate k (CHR '' '')) = read_line l"
proof -
  have "read_float (substr (l @ replicate k (CHR '' '')) a b) = read_float (substr l a b)" for a b
    using substr_pad [of l k "CHR '' ''" a b] read_float_pad by (metis)
  then show ?thesis by (simp add: read_line_def)
qed

lemma read_float_empty: "read_float [] = Inr (Fin 0)"
  by (simp add: read_float_def strip_def strip_with_def)

lemma read_line_empty: "read_line [] = Inr [Fin 0, Fin 0, Fin 0, Fin 0, Fin 0, Fin 0]"
  by (simp add: read_line_def data_slices_def substr_def read_float_empty)

lemma read_float_error: "read_float v = Inl e \<Longrightarrow> e = ValueError"
  by (cases v)
    (auto simp: read_float_def strip_def strip_with_def split: if_splits option.splits)

lemma collect_error:
  "collect rs = Inl e \<Longrightarrow> Inl e \<in> set rs"
  by (induction rs) (auto split: sum.splits)

lemma read_line_error: "read_line l = Inl e \<Longrightarrow> e = ValueError"
proof -
  assume "read_line l = Inl e"
  then have "Inl e \<in> set (map (\<lambda>(a, b). read_float (substr l a b)) data_slices)"
    unfolding read_line_def by (rule collect_error)
  then obtain a b where "read_float (substr l a b) = Inl e" by auto
  then show ?thesis by (rule read_float_error)
qed

lemma collect_length: "collect rs = Inr xs \<Longrightarrow> length xs = length rs"
  by (induction rs arbitrary: xs) (auto split: sum.splits)

lemma read_line_length: "read_line l = Inr f \<Longrightarrow> length f = 6"
  using collect_length [of "map (\<lambda>(a, b). read_float (substr l a b)) data_slices" f]
  by (simp add: read_line_def data_slices_def)

lemma table_loop_error:
  "table_loop ls x y = Inl e \<Longrightarrow> \<exists>l\<in>set ls. read_line l = Inl e"
  by (induction ls arbitrary: x y) (auto split: sum.splits)

lemma table_loop_length:
  "table_loop ls x y = Inr (x', y') \<Longrightarrow>
     length x' = length x + 3 * length ls \<and> length y' = length y + 3 * length ls"
  by (induction ls arbitrary: x y) (auto split: sum.splits)

lemma table_loop_total:
  "\<forall>l\<in>set ls. \<exists>g. read_line l = Inr g \<Longrightarrow> \<exists>x' y'. table_loop ls x y = Inr (x', y')"
  by (induction ls arbitrary: x y) (auto split: sum.splits)

lemma slice_prefix:
  "0 \<le> n \<Longrightarrow> slice xs 0 n = take (nat n) xs"
  by (cases "nat n \<le> length xs") (simp_all add: slice_def clamp_index_def min_def)

lemma getitem_nat:
  "getitem xs (int i) = (if i < length xs then Inr (xs ! i) else Inl IndexError)"
  by (simp add: getitem_def)

lemma getitem_1: "getitem xs 1 = (if 1 < length xs then Inr (xs ! 1) else Inl IndexError)"
  using getitem_nat [of xs 1] by simp

lemma getitem_0: "getitem xs 0 = (if 0 < length xs then Inr (xs ! 0) else Inl IndexError)"
  using getitem_nat [of xs 0] by simp

lemma read_table_short:
  "length lines < 2 \<Longrightarrow> read_table lines = Inl IndexError"
  by (simp add: read_table_def getitem_1)

lemma read_table_no_data:
  assumes "length lines = 2 \<or> length lines = 3"
    and "read_line (lines ! 1) = Inr f" and "py_int (f ! 4) = Inr nS" and "py_int (f ! 5) = Inr NP"
  shows "read_table lines = Inr ([], [])"
  using assms by (auto simp: read_table_def getitem_1 slice_def)

lemma read_table_failures:
  assumes "read_table lines = Inl e"
  shows "(length lines < 2 \<and> e = IndexError)
       \<or> (\<exists>l\<in>set lines. read_line l = Inl e)
       \<or> (\<exists>f. read_line (lines ! 1) = Inr f \<and> (py_int (f ! 4) = Inl e \<or> py_int (f ! 5) = Inl e))"
proof (cases "length lines < 2")
  case True
  then show ?thesis using assms by (simp add: read_table_short)
next
  case False
  then have g: "getitem lines 1 = Inr (lines ! 1)" and m: "lines ! 1 \<in> set lines"
    by (simp_all add: getitem_1)
  show ?thesis
  proof (cases "read_line (lines ! 1)")
    case (Inl e')
    then show ?thesis using assms g m by (auto simp: read_table_def)
  next
    case (Inr f)
    show ?thesis
    proof (cases "py_int (f ! 4)")
      case (Inl e')
      then show ?thesis using assms g Inr by (auto simp: read_table_def)
    next
      case nS: (Inr nS)
      show ?thesis
      proof (cases "py_int (f ! 5)")
        case (Inl e')
        then show ?thesis using assms g Inr nS by (auto simp: read_table_def)
      next
        case nP: (Inr nP)
        have "table_loop (drop 3 lines) [] [] = Inl e"
          using assms g Inr nS nP by (auto simp: read_table_def split: sum.splits)
        then obtain l where "l \<in> set (drop 3 lines)" "read_line l = Inl e"
          using table_loop_error by blast
        then show ?thesis using in_set_dropD by fast
      qed
    qed
  qed
qed

lemma index_not_mem: "a \<notin> set xs \<Longrightarrow> index xs a = Inl ValueError"
  by (induction xs) auto

lemma index_mem:
  "a \<in> set xs \<Longrightarrow>
     \<exists>i. index xs a = Inr i \<and> i < length xs \<and> xs ! i = a \<and> (\<forall>j<i. xs ! j \<noteq> a)"
proof (induction xs)
  case Nil
  then show ?case by simp
next
  case (Cons x xs)
  show ?case
  proof (cases "x = a")
    case True
    then show ?thesis by simp
  next
    case False
    then have "a \<in> set xs" using Cons.prems by simp
    then obtain i where i: "index xs a = Inr i" "i < length xs" "xs ! i = a" "\<forall>j<i. xs ! j \<noteq> a"
      using Cons.IH by blast
    have "\<forall>j<Suc i. (x # xs) ! j \<noteq> a"
      using False i(4) by (auto simp: nth_Cons split: nat.splits)
    then show ?thesis using False i by auto
  qed
qed

lemma slice_nat:
  "a \<le> b \<Longrightarrow> b \<le> length xs \<Longrightarrow> slice xs (int a) (int b) = take (b - a) (drop a xs)"
  by (simp add: slice_def clamp_index_def)

lemma find_section_scan:
  assumes ex: "c \<in> set (map (\<lambda>l. substr l 70 75) lines)"
    and c: "c = fmt_s 2 (str MF) @ fmt_s 3 (str MT)"
  shows "\<exists>i0 i1. i0 < i1 \<and> i1 \<le> length lines
           \<and> find_section lines MF MT = Inr (take (i1 - i0) (drop i0 lines))
           \<and> substr (lines ! i0) 70 75 = c \<and> substr (lines ! (i1 - 1)) 70 75 = c
           \<and> (\<forall>i<length lines. substr (lines ! i) 70 75 = c \<longrightarrow> i0 \<le> i \<and> i < i1)"
proof -
  define v where "v = map (\<lambda>l. substr l 70 75) lines"
  define n where "n = length lines"
  have lv: "length v = n" by (simp add: v_def n_def)
  have vn: "\<And>i. i < n \<Longrightarrow> v ! i = substr (lines ! i) 70 75"
    by (simp add: v_def n_def)
  obtain i0 where i0: "index v c = Inr i0" "i0 < n" "v ! i0 = c" "\<forall>j<i0. v ! j \<noteq> c"
    using index_mem [of c v] ex lv by (auto simp: v_def)
  have "c \<in> set (rev v)" using ex by (simp add: v_def)
  then obtain j where j: "index (rev v) c = Inr j" "j < n" "rev v ! j = c"
      "\<forall>k<j. rev v ! k \<noteq> c"
    using index_mem [of c "rev v"] lv by auto
  define i1 where "i1 = n - j"
  have i1n: "i1 \<le> n" and i1pos: "0 < i1" using j(2) by (simp_all add: i1_def)
  have last: "v ! (i1 - 1) = c"
    using j(2,3) lv by (simp add: rev_nth i1_def)
  have after: "v ! k \<noteq> c" if "i1 \<le> k" "k < n" for k
  proof -
    have "n - Suc k < j" using that j(2) by (simp add: i1_def)
    then have "rev v ! (n - Suc k) \<noteq> c" using j(4) by simp
    moreover have "rev v ! (n - Suc k) = v ! k"
      using that lv by (simp add: rev_nth)
    ultimately show ?thesis by simp
  qed
  have "i0 \<le> i1 - 1"
  proof (rule ccontr)
    assume "\<not> i0 \<le> i1 - 1"
    then have "i1 - 1 < i0" by simp
    then show False using i0(4) last by simp
  qed
  then have lt: "i0 < i1" using i1pos by simp
  have "int n - int j = int i1" using j(2) by (simp add: i1_def)
  then have fs: "find_section lines MF MT = Inr (take (i1 - i0) (drop i0 lines))"
    using i0(1) j(1) lt i1n slice_nat [of i0 i1 lines]
    by (simp add: find_section_def Let_def v_def [symmetric] c [symmetric] lv n_def [symmetric])
  have outside: "\<forall>i<length lines. substr (lines ! i) 70 75 = c \<longrightarrow> i0 \<le> i \<and> i < i1"
  proof (intro allI impI)
    fix i assume i: "i < length lines" and t: "substr (lines ! i) 70 75 = c"
    have vi: "v ! i = c" using i t vn by (simp add: n_def)
    have "i0 \<le> i"
    proof (rule ccontr)
      assume "\<not> i0 \<le> i"
      then have "v ! i \<noteq> c" using i0(4) by simp
      then show False using vi by simp
    qed
    moreover have "i < i1" using after [of i] vi i by (cases "i < i1") (auto simp: n_def)
    ultimately show "i0 \<le> i \<and> i < i1" by simp
  qed
  have "i1 - 1 < n" using i1n i1pos by simp
  then show ?thesis
    using lt i1n fs i0(2,3) last outside vn [of i0] vn [of "i1 - 1"]
    by (intro exI [of _ i0] exI [of _ i1]) (simp add: n_def)
qed

lemma find_section_missing:
  "fmt_s 2 (str MF) @ fmt_s 3 (str MT) \<notin> set (map (\<lambda>l. substr l 70 75) lines) \<Longrightarrow>
     find_section lines MF MT = Inl ValueError"
  by (simp add: find_section_def Let_def index_not_mem)

lemmas str_eval = str_def str_nat.simps char_of_eq_iff

lemma cmpstr_3_5: "fmt_s 2 (str 3) @ fmt_s 3 (str 5) = '' 3  5''"
proof -
  have "str 3 = ''3''" and "str 5 = ''5''" by (simp_all add: str_eval)
  then show ?thesis by (simp add: fmt_s_def numeral_2_eq_2)
qed

lemma cmpstr_6_5: "fmt_s 2 (str 6) @ fmt_s 3 (str 5) = '' 6  5''"
proof -
  have "str 6 = ''6''" and "str 5 = ''5''" by (simp_all add: str_eval)
  then show ?thesis by (simp add: fmt_s_def numeral_2_eq_2)
qed

lemma tag_fields:
  assumes "substr l 70 75 = [a, b, c, d, e]"
  shows "substr l 70 72 = [a, b] \<and> substr l 72 75 = [c, d, e]"
proof -
  have "take 2 (take 5 (drop 70 l)) = [a, b]" and "drop 2 (take 5 (drop 70 l)) = [c, d, e]"
    using assms by (simp_all add: substr_def)
  then show ?thesis by (simp add: substr_def drop_take)
qed

lemma decode_tag_3_5: "substr l 70 75 = '' 3  5'' \<Longrightarrow> decode_tag l = (Some 3, Some 5)"
  using tag_fields [of l "CHR '' ''" "CHR ''3''" "CHR '' ''" "CHR '' ''" "CHR ''5''"]
  by (simp add: decode_tag_def int_of_string_def strip_with_def is_num_space_def
      split_sign_def is_digit_def digits_val_def)

subsection \<open>Parsing a number of a known shape\<close>

lemma strip_with_core:
  assumes "\<forall>x\<in>set a. p x" and "\<forall>x\<in>set b. p x"
    and "m \<noteq> []" and "\<not> p (hd m)" and "\<not> p (last m)"
  shows "strip_with p (a @ m @ b) = m"
proof -
  obtain x m' where m: "m = x # m'" using assms(3) by (cases m) auto
  obtain m'' y where m2: "m = m'' @ [y]" using assms(3) by (cases m rule: rev_cases) auto
  have x: "\<not> p x" using assms(4) m by simp
  have y: "\<not> p y" using assms(5) m2 by simp
  have "dropWhile p (a @ m @ b) = dropWhile p (m @ b)"
    using assms(1) by (intro dropWhile_append2) simp
  then have 1: "dropWhile p (a @ m @ b) = m @ b"
    using x by (simp add: m)
  have "rev (m @ b) = rev b @ y # rev m''" by (simp add: m2)
  moreover have "dropWhile p (rev b @ y # rev m'') = dropWhile p (y # rev m'')"
    using assms(2) by (intro dropWhile_append2) simp
  then have "dropWhile p (rev b @ y # rev m'') = y # rev m''"
    using y by simp
  ultimately have 2: "dropWhile p (rev (m @ b)) = y # rev m''" by simp
  show ?thesis by (simp only: strip_with_def 1 2) (simp add: m2)
qed

lemma strip_with_nonempty:
  "x \<in> set s \<Longrightarrow> \<not> p x \<Longrightarrow> strip_with p s \<noteq> []"
proof -
  assume x: "x \<in> set s" and px: "\<not> p x"
  then have "dropWhile p s \<noteq> []" by (auto simp: dropWhile_eq_Nil_conv)
  then obtain z zs where z: "dropWhile p s = z # zs" by (cases "dropWhile p s") auto
  then have "\<not> p z" using hd_dropWhile [of p s] by simp
  then have "dropWhile p (rev (z # zs)) \<noteq> []"
    by (auto simp: dropWhile_eq_Nil_conv)
  then show ?thesis by (simp add: strip_with_def z)
qed

lemma remove_underscores_none:
  "CHR ''_'' \<notin> set s \<Longrightarrow> prev \<noteq> CHR ''_'' \<Longrightarrow> remove_underscores prev s = Some s"
  by (induction s arbitrary: prev) auto

lemma digit_facts:
  assumes "is_digit x"
  shows "x \<noteq> CHR ''+''" "x \<noteq> CHR ''-''" "x \<noteq> CHR ''.''" "x \<noteq> CHR ''_''" "x \<noteq> CHR '' ''"
    "x \<noteq> CHR ''e''" "x \<noteq> CHR ''E''" "\<not> is_num_space x" "\<not> isspace x"
  using assms by (auto simp: is_digit_def is_num_space_def isspace_def)

lemma digits_takeWhile:
  "list_all is_digit ds \<Longrightarrow> \<not> is_digit y \<Longrightarrow>
     takeWhile is_digit (ds @ y # r) = ds \<and> dropWhile is_digit (ds @ y # r) = y # r"
proof -
  assume ds: "list_all is_digit ds" and y: "\<not> is_digit y"
  have "takeWhile is_digit (ds @ y # r) = ds @ takeWhile is_digit (y # r)"
    using ds by (intro takeWhile_append2) (simp add: list_all_iff)
  moreover have "dropWhile is_digit (ds @ y # r) = dropWhile is_digit (y # r)"
    using ds by (intro dropWhile_append2) (simp add: list_all_iff)
  ultimately show ?thesis using y by simp
qed

lemma parse_decimal_shape:
  assumes ip: "list_all is_digit ip" and fp: "list_all is_digit fp"
    and some: "ip @ fp \<noteq> []" and pt: "\<not> pt \<longrightarrow> fp = []"
    and y: "\<not> is_digit y" "y \<noteq> CHR ''.''"
  shows "parse_decimal (ip @ (if pt then CHR ''.'' # fp else []) @ y # r) =
         parse_exponent (of_nat (digits_val (ip @ fp)) / 10 ^ length fp) (y # r)"
proof (cases pt)
  case True
  have nd: "\<not> is_digit (CHR ''.'')" by (simp add: is_digit_def)
  have 1: "takeWhile is_digit (ip @ CHR ''.'' # fp @ y # r) = ip"
    and 2: "dropWhile is_digit (ip @ CHR ''.'' # fp @ y # r) = CHR ''.'' # fp @ y # r"
    using digits_takeWhile [OF ip nd] by simp_all
  have 3: "takeWhile is_digit (fp @ y # r) = fp"
    and 4: "dropWhile is_digit (fp @ y # r) = y # r"
    using digits_takeWhile [OF fp y(1)] by simp_all
  show ?thesis using True some by (auto simp: parse_decimal_def 1 2 3 4 Let_def)
next
  case False
  then have f: "fp = []" using pt by simp
  have 1: "takeWhile is_digit (ip @ y # r) = ip"
    and 2: "dropWhile is_digit (ip @ y # r) = y # r"
    using digits_takeWhile [OF ip y(1)] by simp_all
  show ?thesis using False some y(2) by (auto simp: parse_decimal_def 1 2 f Let_def)
qed

lemma parse_exponent_marked:
  assumes c: "c = CHR ''+'' \<or> c = CHR ''-''" and ex: "ex \<noteq> []" "list_all is_digit ex"
  shows "parse_exponent m (CHR ''e'' # c # ex) = Some (m * pow10 (c = CHR ''-'') (digits_val ex))"
  using assms by (auto simp: parse_exponent_def split_sign_def)

lemma parse_exponent_unmarked:
  "c = CHR ''+'' \<or> c = CHR ''-'' \<Longrightarrow> parse_exponent m (c # ex) = None"
  by (auto simp: parse_exponent_def)

lemma not_inf_or_nan:
  assumes "x \<in> set s" and "is_digit x"
  shows "parse_inf_or_nan neg s = None"
proof -
  have t: "tolower x = x" using assms(2) by (auto simp: tolower_def is_digit_def)
  have "x \<in> set (map tolower s)" using assms(1) t by force
  moreover have "x \<notin> set ''inf''" "x \<notin> set ''infinity''" "x \<notin> set ''nan''"
    using assms(2) by (auto simp: is_digit_def)
  ultimately have "map tolower s \<noteq> ''inf''" "map tolower s \<noteq> ''infinity''"
      "map tolower s \<noteq> ''nan''"
    by metis+
  then show ?thesis by (simp add: parse_inf_or_nan_def Let_def)
qed

lemma py_float_shape:
  assumes a: "set a \<subseteq> {CHR '' ''}" and b: "set b \<subseteq> {CHR '' ''}"
    and sp: "sp = [] \<or> sp = ''+'' \<or> sp = ''-''"
    and ip: "list_all is_digit ip" and fp: "list_all is_digit fp"
    and some: "ip @ fp \<noteq> []" and pt: "\<not> pt \<longrightarrow> fp = []"
    and y: "y = CHR ''+'' \<or> y = CHR ''-'' \<or> y = CHR ''e''"
    and r: "r \<noteq> []" "is_digit (last r)" "CHR ''_'' \<notin> set r"
  shows "py_float (a @ sp @ ip @ (if pt then CHR ''.'' # fp else []) @ y # r @ b) =
     (case parse_exponent (of_nat (digits_val (ip @ fp)) / 10 ^ length fp) (y # r) of
        Some q \<Rightarrow> Some (round64 (if sp = ''-'' then - q else q))
      | None \<Rightarrow> None)"
proof -
  define mant where "mant = ip @ (if pt then CHR ''.'' # fp else [])"
  define w where "w = sp @ mant @ y # r"
  have ipd: "\<forall>x\<in>set ip. is_digit x" and fpd: "\<forall>x\<in>set fp. is_digit x"
    using ip fp by (simp_all add: list_all_iff)
  have mant_ne: "mant \<noteq> []" using some pt by (auto simp: mant_def)
  have hd_mant: "is_digit (hd mant) \<or> hd mant = CHR ''.''"
    using some pt ipd fpd by (cases ip) (auto simp: mant_def)
  have mant_chars: "\<forall>x\<in>set mant. is_digit x \<or> x = CHR ''.''"
    using ipd fpd by (auto simp: mant_def)
  have yd: "\<not> is_digit y" "y \<noteq> CHR ''.''" "y \<noteq> CHR ''_''"
    using y by (auto simp: is_digit_def)
  have blank: "\<forall>x\<in>set a. is_num_space x" "\<forall>x\<in>set b. is_num_space x"
    using a b blank_space(2) by auto
  have w_ne: "w \<noteq> []" by (simp add: w_def)
  have last_w: "last w = last r" using r(1) by (simp add: w_def)
  have hd_w: "\<not> is_num_space (hd w)"
  proof -
    have "\<not> is_num_space (CHR ''.'')" by (simp add: is_num_space_def)
    then have m: "\<not> is_num_space (hd mant)"
      using hd_mant digit_facts(8) by metis
    have "sp = [] \<Longrightarrow> ?thesis" using m mant_ne by (simp add: w_def)
    moreover have "sp = ''+'' \<Longrightarrow> ?thesis" by (simp add: w_def is_num_space_def)
    moreover have "sp = ''-'' \<Longrightarrow> ?thesis" by (simp add: w_def is_num_space_def)
    ultimately show ?thesis using sp by blast
  qed
  have strip: "strip_with is_num_space (a @ w @ b) = w"
    using blank w_ne hd_w digit_facts(8) [OF r(2)] last_w
    by (intro strip_with_core) simp_all
  have "CHR ''_'' \<notin> set sp" using sp by auto
  moreover have "CHR ''_'' \<notin> set mant"
  proof
    assume "CHR ''_'' \<in> set mant"
    then have "is_digit (CHR ''_'') \<or> CHR ''_'' = CHR ''.''" using mant_chars by blast
    then show False by (simp add: is_digit_def)
  qed
  ultimately have "CHR ''_'' \<notin> set w"
    using yd(3) r(3) by (simp add: w_def)
  then have under: "remove_underscores (CHR 0x00) w = Some w"
    by (rule remove_underscores_none) simp
  have "\<not> is_digit (CHR ''+'')" "\<not> is_digit (CHR ''-'')" by (simp_all add: is_digit_def)
  then have "hd mant \<noteq> CHR ''+''" "hd mant \<noteq> CHR ''-''"
    using hd_mant by auto
  then have sign0: "split_sign (mant @ y # r) = (False, mant @ y # r)"
    using mant_ne by (cases mant) (simp_all add: split_sign_def)
  have sign: "split_sign w = (sp = ''-'', mant @ y # r)"
  proof -
    have "sp = [] \<Longrightarrow> ?thesis" using sign0 by (simp add: w_def)
    moreover have "sp = ''+'' \<Longrightarrow> ?thesis" by (simp add: w_def split_sign_def)
    moreover have "sp = ''-'' \<Longrightarrow> ?thesis" by (simp add: w_def split_sign_def)
    ultimately show ?thesis using sp by blast
  qed
  have dec: "parse_decimal (mant @ y # r) =
      parse_exponent (of_nat (digits_val (ip @ fp)) / 10 ^ length fp) (y # r)"
    unfolding mant_def using parse_decimal_shape [OF ip fp some pt yd(1,2)] by simp
  have "last r \<in> set (mant @ y # r)" using r(1) by simp
  then have nan: "parse_inf_or_nan neg (mant @ y # r) = None" for neg
    using r(2) by (rule not_inf_or_nan)
  have "py_float (a @ w @ b) =
      (case parse_decimal (mant @ y # r) of
         Some q \<Rightarrow> Some (round64 (if sp = ''-'' then - q else q))
       | None \<Rightarrow> parse_inf_or_nan (sp = ''-'') (mant @ y # r))"
    by (simp add: py_float_def strip under sign)
  then have "py_float (a @ w @ b) =
      (case parse_exponent (of_nat (digits_val (ip @ fp)) / 10 ^ length fp) (y # r) of
         Some q \<Rightarrow> Some (round64 (if sp = ''-'' then - q else q))
       | None \<Rightarrow> None)"
    by (simp only: dec nan)
  moreover have "a @ sp @ ip @ (if pt then CHR ''.'' # fp else []) @ y # r @ b = a @ w @ b"
    by (simp add: w_def mant_def)
  ultimately show ?thesis by (simp only:)
qed

lemma mark_exponent:
  assumes u: "CHR ''+'' \<notin> set u" "CHR ''-'' \<notin> set u"
    and t: "CHR ''+'' \<notin> set t" "CHR ''-'' \<notin> set t"
    and c: "c = CHR ''+'' \<or> c = CHR ''-''"
  shows "replace (CHR ''-'') ''e-'' (replace (CHR ''+'') ''e+'' (u @ c # t)) = u @ CHR ''e'' # c # t"
proof -
  have 1: "replace (CHR ''-'') ''e-'' (replace (CHR ''+'') ''e+'' u) = u"
    using u by (simp add: replace_id)
  have 2: "replace (CHR ''-'') ''e-'' (replace (CHR ''+'') ''e+'' t) = t"
    using t by (simp add: replace_id)
  have 3: "replace (CHR ''-'') ''e-'' (replace (CHR ''+'') ''e+'' [c]) = [CHR ''e'', c]"
    using c by (auto simp: replace_def)
  have "u @ c # t = u @ [c] @ t" by simp
  then show ?thesis by (simp only: replace_append 1 2 3) simp
qed

lemma digits_no_sign:
  "\<forall>x\<in>set ds. is_digit x \<Longrightarrow>
     CHR ''+'' \<notin> set ds \<and> CHR ''-'' \<notin> set ds \<and> CHR ''_'' \<notin> set ds"
proof -
  assume d: "\<forall>x\<in>set ds. is_digit x"
  have "\<not> is_digit (CHR ''+'')" "\<not> is_digit (CHR ''-'')" "\<not> is_digit (CHR ''_'')"
    by (simp_all add: is_digit_def)
  then show ?thesis using d by blast
qed

lemma blanks_no_sign:
  "set b \<subseteq> {CHR '' ''} \<Longrightarrow> CHR ''+'' \<notin> set b \<and> CHR ''-'' \<notin> set b"
  by auto

subsection \<open>The loop of \<open>find_yields\<close>\<close>

lemma getitem_mem: "getitem xs i = Inr x \<Longrightarrow> x \<in> set xs"
  by (auto simp: getitem_def split: if_splits)

lemma yield_step_Inr:
  assumes "yield_step lines head_line line_num = Inr (key, block, next_line)"
  shows "\<exists>l ZAP AWR LIP LAW NR NP dl.
           getitem lines (line_num - 1) = Inr l
         \<and> parse_header l = Inr (ZAP, AWR, LIP, LAW, NR, NP)
         \<and> NR \<le> 1 \<and> LAW \<le> 0
         \<and> data_lines_of NP = Inr dl
         \<and> key = (if 0 < LIP then str ZAP @ ''m'' else str ZAP)
         \<and> block = head_line # slice lines (line_num - 1) (line_num - 1 + dl + 2)
         \<and> next_line = line_num + (dl + 2)"
  using assms
  by (auto simp: yield_step_def Let_def split: sum.splits prod.splits if_splits)

lemma dict_of_snoc: "dict_of (acc @ [(key, block)]) = AList.update key block (dict_of acc)"
  by (simp add: dict_of_def)

lemma loop_refines_trace:
  "find_yields_loop lines head_line line_num d = Some y \<Longrightarrow>
     \<forall>acc. d = dict_of acc \<longrightarrow>
       (\<exists>y'. parsed_subsections lines head_line line_num acc = Some y'
             \<and> y = map_sum id dict_of y')"
proof (induct rule: find_yields_loop.raw_induct [rotated 1, consumes 1, case_names step])
  case (step loop lines head_line line_num d y)
  show ?case
  proof (intro allI impI)
    fix acc assume d: "d = dict_of acc"
    show "\<exists>y'. parsed_subsections lines head_line line_num acc = Some y'
             \<and> y = map_sum id dict_of y'"
    proof (cases "line_num \<le> int (length lines)")
      case False
      then show ?thesis using step(2) d
        by (subst parsed_subsections.simps) auto
    next
      case True
      show ?thesis
      proof (cases "yield_step lines head_line line_num")
        case (Inl e)
        then show ?thesis using step(2) True
          by (subst parsed_subsections.simps) auto
      next
        case (Inr t)
        obtain key block next_line where t: "t = (key, block, next_line)"
          by (cases t) auto
        have "loop lines head_line next_line (AList.update key block d) = Some y"
          using step(2) True Inr t by simp
        from step(1) [OF this]
        have "AList.update key block d = dict_of (acc @ [(key, block)]) \<longrightarrow>
            (\<exists>y'. parsed_subsections lines head_line next_line (acc @ [(key, block)]) = Some y'
               \<and> y = map_sum id dict_of y')"
          by (rule spec)
        then obtain y' where
          "parsed_subsections lines head_line next_line (acc @ [(key, block)]) = Some y'"
          and "y = map_sum id dict_of y'"
          using d by (auto simp: dict_of_snoc)
        then show ?thesis using True Inr t
          by (subst parsed_subsections.simps) auto
      qed
    qed
  qed
qed

lemma trace_refines_loop:
  "parsed_subsections lines head_line line_num acc = Some y' \<Longrightarrow>
     find_yields_loop lines head_line line_num (dict_of acc) = Some (map_sum id dict_of y')"
proof (induct rule: parsed_subsections.raw_induct [rotated 1, consumes 1, case_names step])
  case (step trace lines head_line line_num acc y')
  show ?case
  proof (cases "line_num \<le> int (length lines)")
    case False
    then show ?thesis using step(2)
      by (subst find_yields_loop.simps) auto
  next
    case True
    show ?thesis
    proof (cases "yield_step lines head_line line_num")
      case (Inl e)
      then show ?thesis using step(2) True
        by (subst find_yields_loop.simps) auto
    next
      case (Inr t)
      obtain key block next_line where t: "t = (key, block, next_line)"
        by (cases t) auto
      have "trace lines head_line next_line (acc @ [(key, block)]) = Some y'"
        using step(2) True Inr t by simp
      from step(1) [OF this]
      have "find_yields_loop lines head_line next_line (AList.update key block (dict_of acc))
          = Some (map_sum id dict_of y')"
        by (simp add: dict_of_snoc id_def)
      then show ?thesis using True Inr t
        by (subst find_yields_loop.simps) auto
    qed
  qed
qed

lemma loop_eq_trace:
  "find_yields_loop lines head_line line_num (dict_of acc) =
     map_option (map_sum id dict_of) (parsed_subsections lines head_line line_num acc)"
proof (cases "parsed_subsections lines head_line line_num acc")
  case None
  have "find_yields_loop lines head_line line_num (dict_of acc) = None"
  proof (cases "find_yields_loop lines head_line line_num (dict_of acc)")
    case (Some y)
    then show ?thesis using loop_refines_trace [OF Some] None by auto
  qed simp
  then show ?thesis using None by simp
next
  case (Some y')
  then show ?thesis using trace_refines_loop [OF Some] by simp
qed

lemma dict_of_map_of: "map_of (dict_of subs) = map_of (rev subs)"
proof (induction subs rule: rev_induct)
  case Nil
  then show ?case by (simp add: dict_of_def)
next
  case (snoc p subs)
  obtain key block where p: "p = (key, block)" by (cases p)
  show ?case using snoc by (simp add: p dict_of_snoc update_conv')
qed

lemma dict_of_distinct: "distinct (map fst (dict_of subs))"
proof (induction subs rule: rev_induct)
  case Nil
  then show ?case by (simp add: dict_of_def)
next
  case (snoc p subs)
  obtain key block where p: "p = (key, block)" by (cases p)
  show ?case using snoc by (simp add: p dict_of_snoc distinct_update)
qed

lemma dict_of_keys: "fst ` set (dict_of subs) = fst ` set subs"
proof (induction subs rule: rev_induct)
  case Nil
  then show ?case by (simp add: dict_of_def)
next
  case (snoc p subs)
  obtain key block where p: "p = (key, block)" by (cases p)
  show ?case using snoc by (simp add: p dict_of_snoc dom_update)
qed

lemma dict_of_length: "length (dict_of subs) = card (fst ` set subs)"
proof -
  have "length (map fst (dict_of subs)) = card (set (map fst (dict_of subs)))"
    using dict_of_distinct [of subs] by (simp only: distinct_card)
  then show ?thesis using dict_of_keys [of subs] by simp
qed

lemma dict_of_shorter:
  assumes "\<not> distinct (map fst subs)"
  shows "length (dict_of subs) < length subs"
proof -
  have "card (set (map fst subs)) \<le> length (map fst subs)" by (rule card_length)
  moreover have "card (set (map fst subs)) \<noteq> length (map fst subs)"
    using assms card_distinct by blast
  ultimately show ?thesis using dict_of_length [of subs] by simp
qed

lemma dict_of_entry: "(key, block) \<in> set (dict_of subs) \<Longrightarrow> (key, block) \<in> set subs"
proof -
  assume "(key, block) \<in> set (dict_of subs)"
  then have "map_of (dict_of subs) key = Some block"
    using dict_of_distinct [of subs] by simp
  then have "map_of (rev subs) key = Some block" by (simp add: dict_of_map_of)
  then have "(key, block) \<in> set (rev subs)" by (rule map_of_SomeD)
  then show ?thesis by simp
qed

lemma trace_steps_aux:
  assumes "parsed_subsections lines head_line line_num acc = Some y"
  shows "\<forall>subs. y = Inr subs \<longrightarrow>
     (\<forall>p\<in>set acc. \<exists>ln nx. yield_step lines head_line ln = Inr (fst p, snd p, nx))
     \<longrightarrow> (\<forall>p\<in>set subs. \<exists>ln nx. yield_step lines head_line ln = Inr (fst p, snd p, nx))"
  using assms
proof (induct rule: parsed_subsections.raw_induct [rotated 1, consumes 1, case_names step])
  case (step trace lines head_line line_num acc y)
  show ?case
  proof (cases "line_num \<le> int (length lines)")
    case False
    then show ?thesis using step(2) by auto
  next
    case True
    show ?thesis
    proof (cases "yield_step lines head_line line_num")
      case (Inl e)
      then show ?thesis using step(2) True by auto
    next
      case (Inr t)
      obtain key block next_line where t: "t = (key, block, next_line)"
        by (cases t) auto
      have "trace lines head_line next_line (acc @ [(key, block)]) = Some y"
        using step(2) True Inr t by simp
      from step(1) [OF this] show ?thesis using Inr t by fastforce
    qed
  qed
qed

lemma trace_steps:
  assumes "parsed_subsections lines head_line line_num [] = Some (Inr subs)"
    and "(key, block) \<in> set subs"
  shows "\<exists>ln nx. yield_step lines head_line ln = Inr (key, block, nx)"
  using trace_steps_aux [OF assms(1)] assms(2) by fastforce

lemma data_lines_progress:
  assumes "- 5 \<le> NP" and "data_lines_of NP = Inr dl"
  shows "- 1 \<le> dl"
proof (cases "0 \<le> NP")
  case True
  then show ?thesis using data_lines_nonneg [OF True assms(2)] by simp
next
  case False
  then have "\<bar>NP\<bar> < 3 * 2 ^ 51" using assms(1) by simp
  then have "dl = \<lceil>rat_of_int NP / 3\<rceil>"
    using data_lines_exact [of NP] assms(2) by simp
  moreover have "rat_of_int (- 5) \<le> rat_of_int NP"
    using assms(1) by (simp only: of_int_le_iff)
  then have "- 2 < rat_of_int NP / 3" by simp
  then have "- 1 \<le> \<lceil>rat_of_int NP / 3\<rceil>" by (simp add: le_ceiling_iff)
  ultimately show ?thesis by simp
qed

lemma loop_terminates:
  assumes counts: "\<forall>l\<in>set lines. \<forall>ZAP AWR LIP LAW NR NP.
      parse_header l = Inr (ZAP, AWR, LIP, LAW, NR, NP) \<longrightarrow> - 5 \<le> NP"
  shows "\<exists>r. find_yields_loop lines head_line line_num d = Some r"
proof (induction "nat (int (length lines) + 1 - line_num)" arbitrary: line_num d
    rule: less_induct)
  case less
  show ?case
  proof (cases "line_num \<le> int (length lines)")
    case False
    then show ?thesis by (subst find_yields_loop.simps) simp
  next
    case True
    show ?thesis
    proof (cases "yield_step lines head_line line_num")
      case (Inl e)
      then show ?thesis using True by (subst find_yields_loop.simps) simp
    next
      case (Inr t)
      obtain key block next_line where t: "t = (key, block, next_line)"
        by (cases t) auto
      from yield_step_Inr [OF Inr [unfolded t]]
      obtain l ZAP AWR LIP LAW NR NP dl where
        l: "getitem lines (line_num - 1) = Inr l"
        and h: "parse_header l = Inr (ZAP, AWR, LIP, LAW, NR, NP)"
        and dl: "data_lines_of NP = Inr dl"
        and nx: "next_line = line_num + (dl + 2)"
        by blast
      have "- 5 \<le> NP" using counts getitem_mem [OF l] h by blast
      then have "- 1 \<le> dl" using dl by (rule data_lines_progress)
      then have "line_num < next_line" using nx by simp
      then have "nat (int (length lines) + 1 - next_line)
               < nat (int (length lines) + 1 - line_num)"
        using True by simp
      from less [OF this]
      obtain r where "find_yields_loop lines head_line next_line (AList.update key block d) = Some r"
        by blast
      then show ?thesis using True Inr t by (subst find_yields_loop.simps) simp
    qed
  qed
qed

lemma loop_past_end:
  "int (length lines) < line_num \<Longrightarrow>
     find_yields_loop lines head_line line_num d = Some (Inr d)"
  by (subst find_yields_loop.simps) simp

lemma loop_step:
  "line_num \<le> int (length lines) \<Longrightarrow>
   yield_step lines head_line line_num = Inr (key, block, next_line) \<Longrightarrow>
     find_yields_loop lines head_line line_num d =
     find_yields_loop lines head_line next_line (AList.update key block d)"
  by (subst find_yields_loop.simps) simp

lemma loop_error:
  "line_num \<le> int (length lines) \<Longrightarrow> yield_step lines head_line line_num = Inl e \<Longrightarrow>
     find_yields_loop lines head_line line_num d = Some (Inl e)"
  by (subst find_yields_loop.simps) simp

lemma data_lines_small:
  "data_lines_of 0 = Inr 0" "data_lines_of 2 = Inr 1" "data_lines_of 4 = Inr 2"
  "data_lines_of (- 6) = Inr (- 2)"
proof -
  have c: "\<lceil>(2::rat) / 3\<rceil> = 1" "\<lceil>(4::rat) / 3\<rceil> = 2" "\<lceil>- (6::rat) / 3\<rceil> = - 2"
    by (simp_all add: ceiling_unique)
  show "data_lines_of 0 = Inr 0" using data_lines_exact [of 0] by simp
  show "data_lines_of 2 = Inr 1" using data_lines_exact [of 2] c by simp
  show "data_lines_of 4 = Inr 2" using data_lines_exact [of 4] c by simp
  show "data_lines_of (- 6) = Inr (- 2)" using data_lines_exact [of "- 6"] c by simp
qed

lemmas header_eval = parse_header_def line_eval py_int_def

lemmas step_eval = yield_step_def getitem_def data_lines_small slice_def clamp_index_def

lemma find_yields_enters_loop:
  assumes sec: "find_section tape 6 5 = Inr lines"
    and cnt: "get_num_subsections lines = Inr n" and nz: "n \<noteq> 0"
  shows "find_yields tape =
     map_option (map_sum id YieldDict) (find_yields_loop lines (lines ! 0) 2 [])"
proof -
  have "lines \<noteq> []" using cnt by (auto simp: get_num_subsections_def getitem_0)
  then have "getitem lines 0 = Inr (lines ! 0)" by (simp add: getitem_0)
  then show ?thesis using sec cnt nz by (simp add: find_yields_def)
qed

lemma trace_past_end:
  "int (length lines) < line_num \<Longrightarrow>
     parsed_subsections lines head_line line_num acc = Some (Inr acc)"
  by (subst parsed_subsections.simps) simp

lemma trace_step:
  "line_num \<le> int (length lines) \<Longrightarrow>
   yield_step lines head_line line_num = Inr (key, block, next_line) \<Longrightarrow>
     parsed_subsections lines head_line line_num acc =
     parsed_subsections lines head_line next_line (acc @ [(key, block)])"
  by (subst parsed_subsections.simps) simp

lemma map_of_rev_last:
  "i < length subs \<Longrightarrow>
   (\<forall>j. i < j \<and> j < length subs \<longrightarrow> fst (subs ! j) \<noteq> fst (subs ! i)) \<Longrightarrow>
     map_of (rev subs) (fst (subs ! i)) = Some (snd (subs ! i))"
proof (induction subs rule: rev_induct)
  case Nil
  then show ?case by simp
next
  case (snoc p subs)
  show ?case
  proof (cases "i = length subs")
    case True
    then show ?thesis by simp
  next
    case False
    then have i: "i < length subs" using snoc.prems(1) by simp
    have "i < length subs \<and> length subs < length (subs @ [p]) \<longrightarrow>
        fst ((subs @ [p]) ! length subs) \<noteq> fst ((subs @ [p]) ! i)"
      using snoc.prems(2) by (rule spec)
    then have ne: "fst p \<noteq> fst (subs ! i)" using i by (simp add: nth_append)
    have "\<forall>j. i < j \<and> j < length subs \<longrightarrow> fst (subs ! j) \<noteq> fst (subs ! i)"
    proof (intro allI impI)
      fix j assume j: "i < j \<and> j < length subs"
      have "i < j \<and> j < length (subs @ [p]) \<longrightarrow>
          fst ((subs @ [p]) ! j) \<noteq> fst ((subs @ [p]) ! i)"
        using snoc.prems(2) by (rule spec)
      then have "fst ((subs @ [p]) ! j) \<noteq> fst ((subs @ [p]) ! i)"
        using j by simp
      then show "fst (subs ! j) \<noteq> fst (subs ! i)" using j i by (simp add: nth_append)
    qed
    from snoc.IH [OF i this] show ?thesis
      using ne i by (cases p) (auto simp: nth_append)
  qed
qed

lemma loop_stuck:
  assumes "yield_step lines head_line n = Inr (key, block, n)"
    and "n \<le> int (length lines)"
  shows "find_yields_loop lines head_line n d = None"
proof -
  have aux: "\<not> (ls = lines \<and> hl = head_line \<and> m = n)"
    if "find_yields_loop ls hl m d' = Some y" for ls hl m d' y
    using that
  proof (induct rule: find_yields_loop.raw_induct [rotated 1, consumes 1, case_names step])
    case (step loop ls hl m d' y)
    show ?case
    proof
      assume eq: "ls = lines \<and> hl = head_line \<and> m = n"
      then have "loop lines head_line n (AList.update key block d') = Some y"
        using step(2) assms by simp
      from step(1) [OF this] show False by simp
    qed
  qed
  show ?thesis
  proof (cases "find_yields_loop lines head_line n d")
    case None
    then show ?thesis .
  next
    case (Some y)
    from aux [OF Some] show ?thesis by simp
  qed
qed

section \<open>The line decoder and short lines\<close>

text \<open>
  C9 (as the code has it). \<open>read_line\<close> has no check of the length of a line and no
  error for a truncated record. A line shorter than 80 columns is decoded exactly as
  the same line filled up with blanks to 80 columns, and the only error \<open>read_line\<close>
  can raise at all is the \<open>ValueError\<close> of a field that is not a number.
\<close>

theorem read_line_short_pads:
  "length l < 80 \<Longrightarrow>
     read_line l = read_line (l @ replicate (80 - length l) (CHR '' ''))
     \<and> (\<forall>e. read_line l = Inl e \<longrightarrow> e = ValueError)"
  using read_line_pad [of l "80 - length l"] read_line_error [of l] by simp

theorem read_line_short_pads_witness:
  "length '' 2'' < 80
   \<and> read_line '' 2'' = read_line ('' 2'' @ replicate (80 - length '' 2'') (CHR '' ''))
   \<and> read_line '' 2'' = Inr [Fin 2, Fin 0, Fin 0, Fin 0, Fin 0, Fin 0]"
proof -
  have "read_line '' 2'' = Inr [Fin 2, Fin 0, Fin 0, Fin 0, Fin 0, Fin 0]"
    by (simp add: line_eval)
  then show ?thesis
    using read_line_short_pads [of "'' 2''"] by simp
qed

text \<open>
  The claim as the specification states it asks for a \<open>TruncatedRecord\<close> failure on
  every short line. The empty line is decoded to six zeros.
\<close>

theorem read_line_truncated_counterexample:
  "read_line [] = Inr [Fin 0, Fin 0, Fin 0, Fin 0, Fin 0, Fin 0]"
  by (rule read_line_empty)

section \<open>The table reader\<close>

text \<open>
  C2. Let line 1 of the range decode, with the counts \<open>nS\<close> and \<open>NP\<close> in its fields 4
  and 5, let \<open>NP\<close> be a count (not negative), let the range hold at least
  \<open>ceil(NP/3)\<close> lines after its three header lines, and let these data lines decode.
  Then \<open>read_table\<close> returns, and both sequences are the first \<open>NP\<close> entries of what
  the data lines hold: exactly \<open>NP\<close> elements each, the pairs after them on the last
  line left out.
\<close>

theorem read_table_points:
  assumes hdr: "read_line (lines ! 1) = Inr f"
    and nS: "py_int (f ! 4) = Inr nS" and nP: "py_int (f ! 5) = Inr NP"
    and pos: "0 \<le> NP"
    and len: "\<lceil>rat_of_int NP / 3\<rceil> \<le> int (length lines) - 3"
    and data: "\<forall>l\<in>set (drop 3 lines). \<exists>g. read_line l = Inr g"
  shows "\<exists>xs ys. table_loop (drop 3 lines) [] [] = Inr (xs, ys)
           \<and> read_table lines = Inr (take (nat NP) xs, take (nat NP) ys)
           \<and> int (length (take (nat NP) xs)) = NP
           \<and> int (length (take (nat NP) ys)) = NP"
proof -
  obtain xs ys where loop: "table_loop (drop 3 lines) [] [] = Inr (xs, ys)"
    using table_loop_total [OF data] by blast
  have lx: "length xs = 3 * (length lines - 3)" and ly: "length ys = 3 * (length lines - 3)"
    using table_loop_length [OF loop] by simp_all
  have c0: "0 \<le> \<lceil>rat_of_int NP / 3\<rceil>" using pos by simp
  have three: "3 \<le> length lines" using len c0 by linarith
  have "rat_of_int NP / 3 \<le> of_int \<lceil>rat_of_int NP / 3\<rceil>" by (rule le_of_int_ceiling)
  also have "\<dots> \<le> of_int (int (length lines) - 3)" using len by (simp only: of_int_le_iff)
  finally have "rat_of_int NP \<le> 3 * of_int (int (length lines) - 3)" by simp
  then have "rat_of_int NP \<le> of_int (3 * (int (length lines) - 3))" by simp
  then have "NP \<le> 3 * (int (length lines) - 3)" by (simp only: of_int_le_iff)
  moreover have "int (length lines - 3) = int (length lines) - 3" using three by simp
  ultimately have "NP \<le> int (3 * (length lines - 3))" by simp
  then have np: "nat NP \<le> 3 * (length lines - 3)" by (simp only: nat_le_iff)
  have rt: "read_table lines = Inr (take (nat NP) xs, take (nat NP) ys)"
    using three hdr nS nP loop pos
    by (simp add: read_table_def getitem_1 slice_prefix)
  show ?thesis using loop rt np lx ly pos by simp
qed


theorem read_table_points_witness:
  "read_table
     ['''',
      ''                                                      1          4'',
      '''',
      ''1.0        10.0       2.0        20.0       3.0        30.0       '',
      '' 4.000000+0 4.000000+1''] =
   Inr ([Fin 1, Fin 2, Fin 3, Fin 4], [Fin 10, Fin 20, Fin 30, Fin 40])"
proof -
  let ?h = "''                                                      1          4''"
  let ?d1 = "''1.0        10.0       2.0        20.0       3.0        30.0       ''"
  let ?d2 = "'' 4.000000+0 4.000000+1''"
  let ?T = "['''', ?h, '''', ?d1, ?d2]"
  have h: "read_line (?T ! 1) = Inr [Fin 0, Fin 0, Fin 0, Fin 0, Fin 1, Fin 4]"
    by (simp add: line_eval)
  have d1: "read_line ?d1 = Inr [Fin 1, Fin 10, Fin 2, Fin 20, Fin 3, Fin 30]"
    by (simp add: line_eval)
  have d2: "read_line ?d2 = Inr [Fin 4, Fin 40, Fin 0, Fin 0, Fin 0, Fin 0]"
    by (simp add: line_eval)
  have nS: "py_int ([Fin 0, Fin 0, Fin 0, Fin 0, Fin 1, Fin 4] ! 4) = Inr 1"
    by (simp add: py_int_def)
  have nP: "py_int ([Fin 0, Fin 0, Fin 0, Fin 0, Fin 1, Fin 4] ! 5) = Inr 4"
    by (simp add: py_int_def)
  have len: "\<lceil>rat_of_int 4 / 3\<rceil> \<le> int (length ?T) - 3"
    by (simp add: ceiling_le_iff)
  have data: "\<forall>l\<in>set (drop 3 ?T). \<exists>g. read_line l = Inr g"
    using d1 d2 by simp
  have loop: "table_loop (drop 3 ?T) [] [] =
      Inr ([Fin 1, Fin 2, Fin 3, Fin 4, Fin 0, Fin 0],
           [Fin 10, Fin 20, Fin 30, Fin 40, Fin 0, Fin 0])"
    using d1 d2 by simp
  show ?thesis
    using read_table_points [OF h nS nP _ len data] loop by simp
qed

text \<open>
  C8 (as the code has it). \<open>read_table\<close> reads \<open>lines[1]\<close> first, so a range
  of 0 or 1 lines raises \<open>IndexError\<close>. A range of 2 or 3 lines whose line 1 decodes to
  finite counts gives the empty table. Every failure of \<open>read_table\<close> is that
  \<open>IndexError\<close>, a failure of \<open>read_line\<close> on a line of the range, or the failure of
  \<open>int\<close> on a count of line 1 that is infinite or not a number.
\<close>

theorem read_table_short_ranges:
  "(length lines < 2 \<longrightarrow> read_table lines = Inl IndexError)
   \<and> ((length lines = 2 \<or> length lines = 3) \<longrightarrow>
        (\<forall>f nS NP. read_line (lines ! 1) = Inr f \<longrightarrow> py_int (f ! 4) = Inr nS \<longrightarrow>
           py_int (f ! 5) = Inr NP \<longrightarrow> read_table lines = Inr ([], [])))
   \<and> (\<forall>e. read_table lines = Inl e \<longrightarrow>
        (length lines < 2 \<and> e = IndexError)
        \<or> (\<exists>l\<in>set lines. read_line l = Inl e)
        \<or> (\<exists>f. read_line (lines ! 1) = Inr f
               \<and> (py_int (f ! 4) = Inl e \<or> py_int (f ! 5) = Inl e)))"
  using read_table_short [of lines] read_table_no_data [of lines] read_table_failures [of lines]
  by blast

theorem read_table_short_ranges_witness:
  "read_table [''''] = Inl IndexError
   \<and> read_table ['''', ''''] = Inr ([], [])
   \<and> read_table ['''', ''                                                    inf''] =
       Inl OverflowError"
proof -
  have f: "read_line (['''', ''''] ! 1) = Inr [Fin 0, Fin 0, Fin 0, Fin 0, Fin 0, Fin 0]"
    by (simp add: read_line_empty)
  have i: "py_int (Fin 0) = Inr 0"
    by (simp add: py_int_def)
  have g: "read_line ''                                                    inf'' =
      Inr [Fin 0, Fin 0, Fin 0, Fin 0, PosInf, Fin 0]"
    by (simp add: line_eval)
  have 1: "read_table [''''] = Inl IndexError"
    using read_table_short_ranges [of "['''']"] by simp
  have 2: "read_table ['''', ''''] = Inr ([], [])"
    using read_table_short_ranges [of "['''', '''']"] f i by simp
  have 3: "read_table ['''', ''                                                    inf''] =
      Inl OverflowError"
    using g by (simp add: read_table_def getitem_1 py_int_def)
  show ?thesis using 1 2 3 by simp
qed

text \<open>
  The claim as the specification states it promises an empty table for the empty range.
\<close>

theorem read_table_empty_range_counterexample:
  "read_table [] = Inl IndexError"
  by (simp add: read_table_short)

section \<open>The locator\<close>

text \<open>
  C3. Let the tape hold a record whose columns 70 to 74 are the tag of MF=3 and MT=5,
  and let the records with that tag be contiguous. Then \<open>find_section tape 3 5\<close>
  returns the records from index \<open>i0\<close> up to, not including, index \<open>i1\<close>, where a
  record of the tape has the tag exactly when its index is in that range: \<open>i0\<close> is the
  first index that matches, \<open>i1\<close> is one past the last, every record returned has
  the tag and decodes to (3, 5), and no record outside has it.
\<close>

theorem find_section_3_5:
  assumes ex: "\<exists>l\<in>set tape. substr l 70 75 = '' 3  5''"
    and run: "\<forall>i j k. i \<le> j \<and> j \<le> k \<and> k < length tape
                \<and> substr (tape ! i) 70 75 = '' 3  5'' \<and> substr (tape ! k) 70 75 = '' 3  5''
                \<longrightarrow> substr (tape ! j) 70 75 = '' 3  5''"
  shows "\<exists>i0 i1. i0 < i1 \<and> i1 \<le> length tape
           \<and> find_section tape 3 5 = Inr (take (i1 - i0) (drop i0 tape))
           \<and> (\<forall>i<length tape. (substr (tape ! i) 70 75 = '' 3  5'') = (i0 \<le> i \<and> i < i1))
           \<and> (\<forall>r\<in>set (take (i1 - i0) (drop i0 tape)).
                 substr r 70 75 = '' 3  5'' \<and> decode_tag r = (Some 3, Some 5))"
proof -
  let ?c = "'' 3  5''"
  have "?c \<in> set (map (\<lambda>l. substr l 70 75) tape)" using ex by force
  from find_section_scan [OF this cmpstr_3_5 [symmetric]]
  obtain i0 i1 where lt: "i0 < i1" and le: "i1 \<le> length tape"
    and fs: "find_section tape 3 5 = Inr (take (i1 - i0) (drop i0 tape))"
    and first: "substr (tape ! i0) 70 75 = ?c"
    and last: "substr (tape ! (i1 - 1)) 70 75 = ?c"
    and out: "\<forall>i<length tape. substr (tape ! i) 70 75 = ?c \<longrightarrow> i0 \<le> i \<and> i < i1"
    by blast
  have inside: "substr (tape ! i) 70 75 = ?c" if "i0 \<le> i" "i < i1" for i
  proof -
    have "i0 \<le> i \<and> i \<le> i1 - 1 \<and> i1 - 1 < length tape" using that le by linarith
    then show ?thesis using run first last by blast
  qed
  have iff: "\<forall>i<length tape. (substr (tape ! i) 70 75 = ?c) = (i0 \<le> i \<and> i < i1)"
    using out inside by blast
  have recs: "substr r 70 75 = ?c \<and> decode_tag r = (Some 3, Some 5)"
    if "r \<in> set (take (i1 - i0) (drop i0 tape))" for r
  proof -
    define sec where "sec = take (i1 - i0) (drop i0 tape)"
    have len: "length sec = i1 - i0" using le by (simp add: sec_def)
    have "r \<in> set sec" using that by (simp only: sec_def)
    then obtain m where m: "m < length sec" "sec ! m = r"
      unfolding in_set_conv_nth by blast
    have "sec ! m = tape ! (i0 + m)" using m(1) len le by (simp add: sec_def)
    then have "r = tape ! (i0 + m)" using m(2) by simp
    moreover have "i0 \<le> i0 + m" "i0 + m < i1" using m(1) len by simp_all
    ultimately have "substr r 70 75 = ?c" using inside by simp
    then show ?thesis using decode_tag_3_5 by simp
  qed
  show ?thesis using lt le fs iff recs by blast
qed

theorem find_section_3_5_witness:
  "find_section
     ['' 4.009000+4 8.913240+1          0          0          0          04025 3  4    1'',
      '' 4.009000+4 8.913240+1          0          0          0          04025 3  5    1'',
      ''        0.0        0.0          0          0          1          24025 3  5    2'',
      ''                                                                  4025 3  099999''] 3 5 =
   Inr ['' 4.009000+4 8.913240+1          0          0          0          04025 3  5    1'',
        ''        0.0        0.0          0          0          1          24025 3  5    2'']"
proof -
  let ?a = "'' 4.009000+4 8.913240+1          0          0          0          04025 3  4    1''"
  let ?b = "'' 4.009000+4 8.913240+1          0          0          0          04025 3  5    1''"
  let ?c = "''        0.0        0.0          0          0          1          24025 3  5    2''"
  let ?d = "''                                                                  4025 3  099999''"
  let ?T = "[?a, ?b, ?c, ?d]"
  have ta: "substr ?a 70 75 = '' 3  4''" and tb: "substr ?b 70 75 = '' 3  5''"
    and tc: "substr ?c 70 75 = '' 3  5''" and td: "substr ?d 70 75 = '' 3  0''"
    by (simp_all add: substr_def)
  have tags: "\<forall>i<length ?T. (substr (?T ! i) 70 75 = '' 3  5'') = (1 \<le> i \<and> i < 3)"
    using ta tb tc td by (auto simp: nth_Cons' less_Suc_eq)
  have ex: "\<exists>l\<in>set ?T. substr l 70 75 = '' 3  5''"
    using tb by simp
  have run: "\<forall>i j k. i \<le> j \<and> j \<le> k \<and> k < length ?T
       \<and> substr (?T ! i) 70 75 = '' 3  5'' \<and> substr (?T ! k) 70 75 = '' 3  5''
       \<longrightarrow> substr (?T ! j) 70 75 = '' 3  5''"
  proof (intro allI impI)
    fix i j k
    assume h: "i \<le> j \<and> j \<le> k \<and> k < length ?T
       \<and> substr (?T ! i) 70 75 = '' 3  5'' \<and> substr (?T ! k) 70 75 = '' 3  5''"
    then have "i < length ?T" "j < length ?T" "k < length ?T" by simp_all
    then have "1 \<le> i" "k < 3" using tags h by blast+
    then have "1 \<le> j \<and> j < 3" using h by linarith
    then show "substr (?T ! j) 70 75 = '' 3  5''" using tags \<open>j < length ?T\<close> by blast
  qed
  from find_section_3_5 [OF ex run]
  obtain i0 i1 where lt: "i0 < i1" and le: "i1 \<le> length ?T"
    and fs: "find_section ?T 3 5 = Inr (take (i1 - i0) (drop i0 ?T))"
    and iff: "\<forall>i<length ?T. (substr (?T ! i) 70 75 = '' 3  5'') = (i0 \<le> i \<and> i < i1)"
    by blast
  have "(1 \<le> i \<and> i < 3) = (i0 \<le> i \<and> i < i1)" if "i < 4" for i
    using tags iff that by simp
  from this [of 0] this [of 1] this [of 2] this [of 3] lt le
  have "i0 = 1 \<and> i1 = 3" by simp
  then show ?thesis using fs by (simp add: numeral_2_eq_2)
qed

section \<open>The yield splitter\<close>

text \<open>
  C7. When the section MF=6, MT=5 of the tape declares no subsections (field 4 of its
  first line converts to 0), \<open>find_yields\<close> returns that section itself, all its
  lines as \<open>find_section\<close> located them, and no dictionary.
\<close>

theorem find_yields_no_subsections:
  "find_section tape 6 5 = Inr lines \<Longrightarrow> get_num_subsections lines = Inr 0 \<Longrightarrow>
     find_yields tape = Some (Inr (Section lines))"
  by (simp add: find_yields_def)

theorem find_yields_no_subsections_witness:
  "find_yields
     ['' 4.009000+4 8.900000+1          0          0          0          04025 3  5    1'',
      '' 4.009000+4 8.900000+1          0          0          0          04025 6  5    1'',
      ''        1.0        1.0          0          0          1          24025 6  5    2''] =
   Some (Inr (Section
     ['' 4.009000+4 8.900000+1          0          0          0          04025 6  5    1'',
      ''        1.0        1.0          0          0          1          24025 6  5    2'']))"
proof -
  let ?a = "'' 4.009000+4 8.900000+1          0          0          0          04025 3  5    1''"
  let ?b = "'' 4.009000+4 8.900000+1          0          0          0          04025 6  5    1''"
  let ?c = "''        1.0        1.0          0          0          1          24025 6  5    2''"
  have fs: "find_section [?a, ?b, ?c] 6 5 = Inr [?b, ?c]"
    by (simp add: find_section_def cmpstr_6_5 substr_def slice_def clamp_index_def)
  have rl: "read_line ?b = Inr [Fin 40090, Fin 89, Fin 0, Fin 0, Fin 0, Fin 0]"
    by (simp add: line_eval)
  have n: "get_num_subsections [?b, ?c] = Inr 0"
    using rl by (simp add: get_num_subsections_def getitem_0 py_int_def)
  show ?thesis by (rule find_yields_no_subsections [OF fs n])
qed

section \<open>The dictionary of yields\<close>

text \<open>
  C1 (as the code has it). When the section declares a count other than 0 and
  \<open>find_yields\<close> returns, it returns a dictionary. Each of its entries comes from a
  subsection that the loop parsed at some line \<open>ln\<close>: the key is \<open>str(ZAP)\<close> of the
  header decoded there, with \<open>m\<close> appended exactly when \<open>LIP > 0\<close>, and the block is
  the first line of the section followed by the lines of the subsection. The number of
  entries is the number of distinct keys among the parsed subsections. The declared
  count is only compared with 0: it does not bound the number of entries.
\<close>

theorem find_yields_dict:
  assumes sec: "find_section tape 6 5 = Inr lines"
    and cnt: "get_num_subsections lines = Inr n" and nz: "n \<noteq> 0"
    and ret: "find_yields tape = Some (Inr r)"
  shows "\<exists>d subs. r = YieldDict d
           \<and> parsed_subsections lines (lines ! 0) 2 [] = Some (Inr subs)
           \<and> length d = card (fst ` set subs)
           \<and> (\<forall>(key, block)\<in>set d.
                 hd block = lines ! 0
               \<and> (\<exists>ln l ZAP AWR LIP LAW NR NP dl.
                     getitem lines (ln - 1) = Inr l
                   \<and> parse_header l = Inr (ZAP, AWR, LIP, LAW, NR, NP)
                   \<and> data_lines_of NP = Inr dl
                   \<and> key = (if 0 < LIP then str ZAP @ ''m'' else str ZAP)
                   \<and> block = lines ! 0 # slice lines (ln - 1) (ln - 1 + dl + 2)))"
proof -
  have "map_option (map_sum id YieldDict) (find_yields_loop lines (lines ! 0) 2 []) = Some (Inr r)"
    using find_yields_enters_loop [OF sec cnt nz] ret by simp
  then obtain d where loop: "find_yields_loop lines (lines ! 0) 2 [] = Some (Inr d)"
    and r: "r = YieldDict d"
    by (cases "find_yields_loop lines (lines ! 0) 2 []") (auto simp: map_sum_def split: sum.splits)
  have "[] = dict_of []" by (simp add: dict_of_def)
  with loop_refines_trace [OF loop]
  obtain y' where tr: "parsed_subsections lines (lines ! 0) 2 [] = Some y'"
    and y': "Inr d = map_sum id dict_of y'" by blast
  obtain subs where subs: "y' = Inr subs" and d: "d = dict_of subs"
    using y' by (cases y') auto
  let ?Q = "\<lambda>key block. hd block = lines ! 0
      \<and> (\<exists>ln l ZAP AWR LIP LAW NR NP dl.
            getitem lines (ln - 1) = Inr l
          \<and> parse_header l = Inr (ZAP, AWR, LIP, LAW, NR, NP)
          \<and> data_lines_of NP = Inr dl
          \<and> key = (if 0 < LIP then str ZAP @ ''m'' else str ZAP)
          \<and> block = lines ! 0 # slice lines (ln - 1) (ln - 1 + dl + 2))"
  have entries: "?Q key block" if "(key, block) \<in> set d" for key block
  proof -
    have "(key, block) \<in> set subs" using that d dict_of_entry by simp
    from trace_steps [OF tr [unfolded subs] this]
    obtain ln nx where "yield_step lines (lines ! 0) ln = Inr (key, block, nx)" by blast
    from yield_step_Inr [OF this]
    obtain l ZAP AWR LIP LAW NR NP dl where
      "getitem lines (ln - 1) = Inr l"
      "parse_header l = Inr (ZAP, AWR, LIP, LAW, NR, NP)"
      "data_lines_of NP = Inr dl"
      "key = (if 0 < LIP then str ZAP @ ''m'' else str ZAP)"
      "block = lines ! 0 # slice lines (ln - 1) (ln - 1 + dl + 2)"
      by blast
    then show ?thesis by (intro conjI exI) simp_all
  qed
  have all: "\<forall>(key, block)\<in>set d. ?Q key block"
  proof (rule ballI)
    fix p assume p: "p \<in> set d"
    obtain key block where kb: "p = (key, block)" by (cases p)
    show "case p of (key, block) \<Rightarrow> ?Q key block"
      using entries [of key block] p unfolding kb by (simp only: prod.case)
  qed
  show ?thesis
  proof (rule exI [of _ d], rule exI [of _ subs], intro conjI)
    show "r = YieldDict d" by (rule r)
    show "parsed_subsections lines (lines ! 0) 2 [] = Some (Inr subs)"
      using tr subs by simp
    show "length d = card (fst ` set subs)"
      using d dict_of_length [of subs] by simp
    show "\<forall>(key, block)\<in>set d. ?Q key block" by (rule all)
  qed
qed

theorem find_yields_dict_witness:
  "let p = '' 4.009000+4 8.900000+1          0          0          0          04025 3  5    1'';
       h = '' 4.009000+4 8.900000+1          0          2          2          04025 6  5    1'';
       a1 = '' 4.109100+4 9.000000+1          0          0          1          24025 6  5    2'';
       a2 = ''          2          2                                            4025 6  5    3'';
       a3 = '' 1.000000+6 5.000000-1 2.000000+7 2.500000-1                      4025 6  5    4'';
       b1 = '' 4.109100+4 9.000000+1          1          0          1          44025 6  5    5'';
       b2 = ''          4          2                                            4025 6  5    6'';
       b3 = '' 1.000000+6 5.000000-1 2.000000+6 2.500000-1 3.000000+6 1.250000-14025 6  5    7'';
       b4 = '' 2.000000+7 0.000000+0                                            4025 6  5    8'';
       e = ''                                                                  4025 6  099999''
   in find_yields [p, h, a1, a2, a3, b1, b2, b3, b4, e] =
        Some (Inr (YieldDict [(''41091'', [h, a1, a2, a3]), (''41091m'', [h, b1, b2, b3, b4])]))
      \<and> (\<exists>subs. parsed_subsections [h, a1, a2, a3, b1, b2, b3, b4] h 2 [] = Some (Inr subs)
            \<and> card (fst ` set subs) = 2)"
proof -
  let ?p = "'' 4.009000+4 8.900000+1          0          0          0          04025 3  5    1''"
  let ?h = "'' 4.009000+4 8.900000+1          0          2          2          04025 6  5    1''"
  let ?a1 = "'' 4.109100+4 9.000000+1          0          0          1          24025 6  5    2''"
  let ?a2 = "''          2          2                                            4025 6  5    3''"
  let ?a3 = "'' 1.000000+6 5.000000-1 2.000000+7 2.500000-1                      4025 6  5    4''"
  let ?b1 = "'' 4.109100+4 9.000000+1          1          0          1          44025 6  5    5''"
  let ?b2 = "''          4          2                                            4025 6  5    6''"
  let ?b3 = "'' 1.000000+6 5.000000-1 2.000000+6 2.500000-1 3.000000+6 1.250000-14025 6  5    7''"
  let ?b4 = "'' 2.000000+7 0.000000+0                                            4025 6  5    8''"
  let ?e = "''                                                                  4025 6  099999''"
  let ?T = "[?p, ?h, ?a1, ?a2, ?a3, ?b1, ?b2, ?b3, ?b4, ?e]"
  let ?L = "[?h, ?a1, ?a2, ?a3, ?b1, ?b2, ?b3, ?b4]"
  let ?D = "[(''41091'', [?h, ?a1, ?a2, ?a3]), (''41091m'', [?h, ?b1, ?b2, ?b3, ?b4])]"
  have sec: "find_section ?T 6 5 = Inr ?L"
    by (simp add: find_section_def cmpstr_6_5 substr_def slice_def clamp_index_def)
  have rh: "read_line ?h = Inr [Fin 40090, Fin 89, Fin 0, Fin 2, Fin 2, Fin 0]"
    by (simp add: line_eval)
  have cnt: "get_num_subsections ?L = Inr 2"
    using rh by (simp add: get_num_subsections_def getitem_0 py_int_def)
  have ha: "parse_header ?a1 = Inr (41091, Fin 90, 0, 0, 1, 2)"
    by (simp add: header_eval)
  have hb: "parse_header ?b1 = Inr (41091, Fin 90, 1, 0, 1, 4)"
    by (simp add: header_eval)
  have k: "str 41091 = ''41091''" by (simp add: str_eval)
  have s2: "yield_step ?L ?h 2 = Inr (''41091'', [?h, ?a1, ?a2, ?a3], 5)"
    using ha k by (simp add: step_eval)
  have s5: "yield_step ?L ?h 5 = Inr (''41091m'', [?h, ?b1, ?b2, ?b3, ?b4], 9)"
    using hb k by (simp add: step_eval)
  have "find_yields_loop ?L ?h 2 [] = Some (Inr ?D)"
    by (simp add: loop_step [OF _ s2] loop_step [OF _ s5] loop_past_end)
  then have ret: "find_yields ?T = Some (Inr (YieldDict ?D))"
    using find_yields_enters_loop [OF sec cnt] by simp
  from find_yields_dict [OF sec cnt _ ret]
  obtain d subs where "YieldDict ?D = YieldDict d"
    and "parsed_subsections ?L (?L ! 0) 2 [] = Some (Inr subs)"
    and "length d = card (fst ` set subs)"
    by auto
  then have "\<exists>subs. parsed_subsections ?L ?h 2 [] = Some (Inr subs) \<and> card (fst ` set subs) = 2"
    by auto
  then show ?thesis using ret by (simp only: Let_def simp_thms)
qed

text \<open>
  The claim as the specification states it has the number of entries equal to the
  declared count. Here the first line declares 2 subsections, the section holds two,
  both of the product 41091 in its ground state, and the dictionary has one entry.
\<close>

theorem find_yields_count_counterexample:
  "let p = '' 4.009000+4 8.900000+1          0          0          0          04025 3  5    1'';
       h = '' 4.009000+4 8.900000+1          0          2          2          04025 6  5    1'';
       a1 = '' 4.109100+4 9.000000+1          0          0          1          24025 6  5    2'';
       a2 = ''          2          2                                            4025 6  5    3'';
       a3 = '' 1.000000+6 5.000000-1 2.000000+7 2.500000-1                      4025 6  5    4'';
       c1 = '' 4.109100+4 9.000000+1          0          0          1          44025 6  5    5'';
       b2 = ''          4          2                                            4025 6  5    6'';
       b3 = '' 1.000000+6 5.000000-1 2.000000+6 2.500000-1 3.000000+6 1.250000-14025 6  5    7'';
       b4 = '' 2.000000+7 0.000000+0                                            4025 6  5    8'';
       e = ''                                                                  4025 6  099999''
   in get_num_subsections [h, a1, a2, a3, c1, b2, b3, b4] = Inr 2
      \<and> find_yields [p, h, a1, a2, a3, c1, b2, b3, b4, e] =
          Some (Inr (YieldDict [(''41091'', [h, c1, b2, b3, b4])]))"
proof -
  let ?p = "'' 4.009000+4 8.900000+1          0          0          0          04025 3  5    1''"
  let ?h = "'' 4.009000+4 8.900000+1          0          2          2          04025 6  5    1''"
  let ?a1 = "'' 4.109100+4 9.000000+1          0          0          1          24025 6  5    2''"
  let ?a2 = "''          2          2                                            4025 6  5    3''"
  let ?a3 = "'' 1.000000+6 5.000000-1 2.000000+7 2.500000-1                      4025 6  5    4''"
  let ?c1 = "'' 4.109100+4 9.000000+1          0          0          1          44025 6  5    5''"
  let ?b2 = "''          4          2                                            4025 6  5    6''"
  let ?b3 = "'' 1.000000+6 5.000000-1 2.000000+6 2.500000-1 3.000000+6 1.250000-14025 6  5    7''"
  let ?b4 = "'' 2.000000+7 0.000000+0                                            4025 6  5    8''"
  let ?e = "''                                                                  4025 6  099999''"
  let ?T = "[?p, ?h, ?a1, ?a2, ?a3, ?c1, ?b2, ?b3, ?b4, ?e]"
  let ?L = "[?h, ?a1, ?a2, ?a3, ?c1, ?b2, ?b3, ?b4]"
  have sec: "find_section ?T 6 5 = Inr ?L"
    by (simp add: find_section_def cmpstr_6_5 substr_def slice_def clamp_index_def)
  have rh: "read_line ?h = Inr [Fin 40090, Fin 89, Fin 0, Fin 2, Fin 2, Fin 0]"
    by (simp add: line_eval)
  have cnt: "get_num_subsections ?L = Inr 2"
    using rh by (simp add: get_num_subsections_def getitem_0 py_int_def)
  have ha: "parse_header ?a1 = Inr (41091, Fin 90, 0, 0, 1, 2)"
    by (simp add: header_eval)
  have hc: "parse_header ?c1 = Inr (41091, Fin 90, 0, 0, 1, 4)"
    by (simp add: header_eval)
  have k: "str 41091 = ''41091''" by (simp add: str_eval)
  have s2: "yield_step ?L ?h 2 = Inr (''41091'', [?h, ?a1, ?a2, ?a3], 5)"
    using ha k by (simp add: step_eval)
  have s5: "yield_step ?L ?h 5 = Inr (''41091'', [?h, ?c1, ?b2, ?b3, ?b4], 9)"
    using hc k by (simp add: step_eval)
  have "find_yields_loop ?L ?h 2 [] = Some (Inr [(''41091'', [?h, ?c1, ?b2, ?b3, ?b4])])"
    by (simp add: loop_step [OF _ s2] loop_step [OF _ s5] loop_past_end)
  then have "find_yields ?T = Some (Inr (YieldDict [(''41091'', [?h, ?c1, ?b2, ?b3, ?b4])]))"
    using find_yields_enters_loop [OF sec cnt] by simp
  then show ?thesis using cnt by (simp only: Let_def simp_thms)
qed

section \<open>Subsections with the same key\<close>

text \<open>
  C10. Let \<open>subs\<close> be the subsections that the loop parses, in order, each with its
  key and block, and let two of them have the same key (the same \<open>ZAP\<close> and the same
  status of the isomer flag give the same key). Then the dictionary that
  \<open>find_yields\<close> returns is \<open>subs\<close> assigned in order: it has fewer entries than
  subsections were parsed, one for each distinct key, and under a key it holds the
  block of the last subsection with that key.
\<close>

theorem find_yields_overwrites:
  assumes sec: "find_section tape 6 5 = Inr lines"
    and cnt: "get_num_subsections lines = Inr n" and nz: "n \<noteq> 0"
    and subs: "parsed_subsections lines (lines ! 0) 2 [] = Some (Inr subs)"
    and dup: "\<not> distinct (map fst subs)"
  shows "find_yields tape = Some (Inr (YieldDict (dict_of subs)))
       \<and> length (dict_of subs) < length subs
       \<and> length (dict_of subs) = card (fst ` set subs)
       \<and> (\<forall>i<length subs.
             (\<forall>j. i < j \<and> j < length subs \<longrightarrow> fst (subs ! j) \<noteq> fst (subs ! i)) \<longrightarrow>
             map_of (dict_of subs) (fst (subs ! i)) = Some (snd (subs ! i)))"
proof -
  have "find_yields_loop lines (lines ! 0) 2 (dict_of []) = Some (Inr (dict_of subs))"
    using trace_refines_loop [OF subs] by simp
  then have "find_yields_loop lines (lines ! 0) 2 [] = Some (Inr (dict_of subs))"
    by (simp add: dict_of_def)
  then have 1: "find_yields tape = Some (Inr (YieldDict (dict_of subs)))"
    using find_yields_enters_loop [OF sec cnt nz] by simp
  have 2: "length (dict_of subs) < length subs"
    using dup by (rule dict_of_shorter)
  have 3: "length (dict_of subs) = card (fst ` set subs)"
    by (rule dict_of_length)
  have 4: "\<forall>i<length subs.
      (\<forall>j. i < j \<and> j < length subs \<longrightarrow> fst (subs ! j) \<noteq> fst (subs ! i)) \<longrightarrow>
      map_of (dict_of subs) (fst (subs ! i)) = Some (snd (subs ! i))"
    using map_of_rev_last [of _ subs] by (simp add: dict_of_map_of)
  show ?thesis using 1 2 3 4 by (intro conjI)
qed

theorem find_yields_overwrites_witness:
  "let p = '' 4.009000+4 8.900000+1          0          0          0          04025 3  5    1'';
       h = '' 4.009000+4 8.900000+1          0          2          2          04025 6  5    1'';
       a1 = '' 4.109100+4 9.000000+1          0          0          1          24025 6  5    2'';
       a2 = ''          2          2                                            4025 6  5    3'';
       a3 = '' 1.000000+6 5.000000-1 2.000000+7 2.500000-1                      4025 6  5    4'';
       c1 = '' 4.109100+4 9.000000+1          0          0          1          44025 6  5    5'';
       b2 = ''          4          2                                            4025 6  5    6'';
       b3 = '' 1.000000+6 5.000000-1 2.000000+6 2.500000-1 3.000000+6 1.250000-14025 6  5    7'';
       b4 = '' 2.000000+7 0.000000+0                                            4025 6  5    8'';
       e = ''                                                                  4025 6  099999''
   in parsed_subsections [h, a1, a2, a3, c1, b2, b3, b4] h 2 [] =
        Some (Inr [(''41091'', [h, a1, a2, a3]), (''41091'', [h, c1, b2, b3, b4])])
      \<and> find_yields [p, h, a1, a2, a3, c1, b2, b3, b4, e] =
          Some (Inr (YieldDict [(''41091'', [h, c1, b2, b3, b4])]))"
proof -
  let ?p = "'' 4.009000+4 8.900000+1          0          0          0          04025 3  5    1''"
  let ?h = "'' 4.009000+4 8.900000+1          0          2          2          04025 6  5    1''"
  let ?a1 = "'' 4.109100+4 9.000000+1          0          0          1          24025 6  5    2''"
  let ?a2 = "''          2          2                                            4025 6  5    3''"
  let ?a3 = "'' 1.000000+6 5.000000-1 2.000000+7 2.500000-1                      4025 6  5    4''"
  let ?c1 = "'' 4.109100+4 9.000000+1          0          0          1          44025 6  5    5''"
  let ?b2 = "''          4          2                                            4025 6  5    6''"
  let ?b3 = "'' 1.000000+6 5.000000-1 2.000000+6 2.500000-1 3.000000+6 1.250000-14025 6  5    7''"
  let ?b4 = "'' 2.000000+7 0.000000+0                                            4025 6  5    8''"
  let ?e = "''                                                                  4025 6  099999''"
  let ?T = "[?p, ?h, ?a1, ?a2, ?a3, ?c1, ?b2, ?b3, ?b4, ?e]"
  let ?L = "[?h, ?a1, ?a2, ?a3, ?c1, ?b2, ?b3, ?b4]"
  let ?S = "[(''41091'', [?h, ?a1, ?a2, ?a3]), (''41091'', [?h, ?c1, ?b2, ?b3, ?b4])]"
  have sec: "find_section ?T 6 5 = Inr ?L"
    by (simp add: find_section_def cmpstr_6_5 substr_def slice_def clamp_index_def)
  have rh: "read_line ?h = Inr [Fin 40090, Fin 89, Fin 0, Fin 2, Fin 2, Fin 0]"
    by (simp add: line_eval)
  have cnt: "get_num_subsections ?L = Inr 2"
    using rh by (simp add: get_num_subsections_def getitem_0 py_int_def)
  have ha: "parse_header ?a1 = Inr (41091, Fin 90, 0, 0, 1, 2)"
    by (simp add: header_eval)
  have hc: "parse_header ?c1 = Inr (41091, Fin 90, 0, 0, 1, 4)"
    by (simp add: header_eval)
  have k: "str 41091 = ''41091''" by (simp add: str_eval)
  have s2: "yield_step ?L ?h 2 = Inr (''41091'', [?h, ?a1, ?a2, ?a3], 5)"
    using ha k by (simp add: step_eval)
  have s5: "yield_step ?L ?h 5 = Inr (''41091'', [?h, ?c1, ?b2, ?b3, ?b4], 9)"
    using hc k by (simp add: step_eval)
  have tr: "parsed_subsections ?L ?h 2 [] = Some (Inr ?S)"
    by (simp add: trace_step [OF _ s2] trace_step [OF _ s5] trace_past_end)
  then have tr0: "parsed_subsections ?L (?L ! 0) 2 [] = Some (Inr ?S)" by simp
  have dup: "\<not> distinct (map fst ?S)" by simp
  have d: "dict_of ?S = [(''41091'', [?h, ?c1, ?b2, ?b3, ?b4])]"
    by (simp add: dict_of_def)
  have "find_yields ?T = Some (Inr (YieldDict (dict_of ?S)))"
    using find_yields_overwrites [OF sec cnt _ tr0 dup] by simp
  then have "find_yields ?T = Some (Inr (YieldDict [(''41091'', [?h, ?c1, ?b2, ?b3, ?b4])]))"
    by (simp only: d)
  then show ?thesis using tr by (simp only: Let_def simp_thms)
qed

section \<open>The checks of the yield splitter\<close>

text \<open>
  C5 (as the code has it). Let the loop be at a line that decodes to the header
  \<open>(ZAP, AWR, LIP, LAW, NR, NP)\<close>. When \<open>NR > 1\<close> the code prints its message and
  calls \<open>quit()\<close>, which raises \<open>SystemExit\<close>; otherwise, when \<open>LAW > 0\<close>, it prints
  the other message with the value of \<open>LAW\<close> and calls \<open>quit()\<close>. A header with
  \<open>NR \<le> 1\<close> and \<open>LAW \<le> 0\<close> passes both checks, and the loop stores the subsection and
  goes on. The two failures are one and the same exception; they differ in the printed
  line only.
\<close>

theorem find_yields_checks:
  assumes cur: "line_num \<le> int (length lines)"
    and l: "getitem lines (line_num - 1) = Inr l"
    and h: "parse_header l = Inr (ZAP, AWR, LIP, LAW, NR, NP)"
  shows "(1 < NR \<longrightarrow>
            find_yields_loop lines head_line line_num d =
            Some (Inl (SystemExit ''error: can not yet handle multiple interpolation ranges'')))
       \<and> (NR \<le> 1 \<and> 0 < LAW \<longrightarrow>
            find_yields_loop lines head_line line_num d =
            Some (Inl (SystemExit
              (''error: can only handle LAW=0 (no angular data) for now, file had LAW: ''
               @ str LAW))))
       \<and> (NR \<le> 1 \<and> LAW \<le> 0 \<longrightarrow>
            (\<forall>dl. data_lines_of NP = Inr dl \<longrightarrow>
               find_yields_loop lines head_line line_num d =
               find_yields_loop lines head_line (line_num + (dl + 2))
                 (AList.update (if 0 < LIP then str ZAP @ ''m'' else str ZAP)
                    (head_line # slice lines (line_num - 1) (line_num - 1 + dl + 2)) d)))"
proof (intro conjI impI allI)
  assume "1 < NR"
  then have "yield_step lines head_line line_num =
      Inl (SystemExit ''error: can not yet handle multiple interpolation ranges'')"
    using l h by (simp add: yield_step_def)
  then show "find_yields_loop lines head_line line_num d =
      Some (Inl (SystemExit ''error: can not yet handle multiple interpolation ranges''))"
    using cur by (rule loop_error [rotated])
next
  assume "NR \<le> 1 \<and> 0 < LAW"
  then have "yield_step lines head_line line_num =
      Inl (SystemExit
        (''error: can only handle LAW=0 (no angular data) for now, file had LAW: '' @ str LAW))"
    using l h by (simp add: yield_step_def)
  then show "find_yields_loop lines head_line line_num d =
      Some (Inl (SystemExit
        (''error: can only handle LAW=0 (no angular data) for now, file had LAW: '' @ str LAW)))"
    using cur by (rule loop_error [rotated])
next
  fix dl
  assume ok: "NR \<le> 1 \<and> LAW \<le> 0" and dl: "data_lines_of NP = Inr dl"
  have "yield_step lines head_line line_num =
      Inr (if 0 < LIP then str ZAP @ ''m'' else str ZAP,
           head_line # slice lines (line_num - 1) (line_num - 1 + dl + 2),
           line_num + (dl + 2))"
    using l h ok dl by (simp add: yield_step_def Let_def)
  then show "find_yields_loop lines head_line line_num d =
      find_yields_loop lines head_line (line_num + (dl + 2))
        (AList.update (if 0 < LIP then str ZAP @ ''m'' else str ZAP)
           (head_line # slice lines (line_num - 1) (line_num - 1 + dl + 2)) d)"
    using cur by (rule loop_step [rotated])
qed

theorem find_yields_checks_witness:
  "let h = '' 4.009000+4 8.900000+1          0          2          2          04025 6  5    1'';
       r1 = '' 4.109100+4 9.000000+1          0          0          2          24025 6  5    2'';
       w1 = '' 4.109100+4 9.000000+1          0          3          1          24025 6  5    2'';
       a2 = ''          2          2                                            4025 6  5    3'';
       a3 = '' 1.000000+6 5.000000-1 2.000000+7 2.500000-1                      4025 6  5    4''
   in find_yields_loop [h, r1, a2, a3] h 2 [] =
        Some (Inl (SystemExit ''error: can not yet handle multiple interpolation ranges''))
      \<and> find_yields_loop [h, w1, a2, a3] h 2 [] =
        Some (Inl (SystemExit
          ''error: can only handle LAW=0 (no angular data) for now, file had LAW: 3''))"
proof -
  let ?h = "'' 4.009000+4 8.900000+1          0          2          2          04025 6  5    1''"
  let ?r1 = "'' 4.109100+4 9.000000+1          0          0          2          24025 6  5    2''"
  let ?w1 = "'' 4.109100+4 9.000000+1          0          3          1          24025 6  5    2''"
  let ?a2 = "''          2          2                                            4025 6  5    3''"
  let ?a3 = "'' 1.000000+6 5.000000-1 2.000000+7 2.500000-1                      4025 6  5    4''"
  have hr: "parse_header ?r1 = Inr (41091, Fin 90, 0, 0, 2, 2)"
    by (simp add: header_eval)
  have hw: "parse_header ?w1 = Inr (41091, Fin 90, 0, 3, 1, 2)"
    by (simp add: header_eval)
  have k: "str 3 = ''3''" by (simp add: str_eval)
  have gr: "getitem [?h, ?r1, ?a2, ?a3] (2 - 1) = Inr ?r1"
    by (simp add: getitem_def)
  have gw: "getitem [?h, ?w1, ?a2, ?a3] (2 - 1) = Inr ?w1"
    by (simp add: getitem_def)
  have 1: "find_yields_loop [?h, ?r1, ?a2, ?a3] ?h 2 [] =
      Some (Inl (SystemExit ''error: can not yet handle multiple interpolation ranges''))"
    using find_yields_checks [OF _ gr hr, of ?h "[]"] by simp
  have 2: "find_yields_loop [?h, ?w1, ?a2, ?a3] ?h 2 [] =
      Some (Inl (SystemExit
        ''error: can only handle LAW=0 (no angular data) for now, file had LAW: 3''))"
    using find_yields_checks [OF _ gw hw, of ?h "[]"] k by simp
  show ?thesis using 1 2 by (simp only: Let_def simp_thms)
qed

text \<open>
  The claim as the specification states it has every \<open>nr\<close> other than 1 fail. Here the
  subsection header has \<open>NR = 0\<close>, and \<open>find_yields\<close> returns the dictionary.
\<close>

theorem find_yields_nr_zero_counterexample:
  "let p = '' 4.009000+4 8.900000+1          0          0          0          04025 3  5    1'';
       h = '' 4.009000+4 8.900000+1          0          2          2          04025 6  5    1'';
       z1 = '' 4.109100+4 9.000000+1          0          0          0          24025 6  5    2'';
       a2 = ''          2          2                                            4025 6  5    3'';
       a3 = '' 1.000000+6 5.000000-1 2.000000+7 2.500000-1                      4025 6  5    4'';
       e = ''                                                                  4025 6  099999''
   in parse_header z1 = Inr (41091, Fin 90, 0, 0, 0, 2)
      \<and> find_yields [p, h, z1, a2, a3, e] =
          Some (Inr (YieldDict [(''41091'', [h, z1, a2, a3])]))"
proof -
  let ?p = "'' 4.009000+4 8.900000+1          0          0          0          04025 3  5    1''"
  let ?h = "'' 4.009000+4 8.900000+1          0          2          2          04025 6  5    1''"
  let ?z1 = "'' 4.109100+4 9.000000+1          0          0          0          24025 6  5    2''"
  let ?a2 = "''          2          2                                            4025 6  5    3''"
  let ?a3 = "'' 1.000000+6 5.000000-1 2.000000+7 2.500000-1                      4025 6  5    4''"
  let ?e = "''                                                                  4025 6  099999''"
  let ?T = "[?p, ?h, ?z1, ?a2, ?a3, ?e]"
  let ?L = "[?h, ?z1, ?a2, ?a3]"
  have sec: "find_section ?T 6 5 = Inr ?L"
    by (simp add: find_section_def cmpstr_6_5 substr_def slice_def clamp_index_def)
  have rh: "read_line ?h = Inr [Fin 40090, Fin 89, Fin 0, Fin 2, Fin 2, Fin 0]"
    by (simp add: line_eval)
  have cnt: "get_num_subsections ?L = Inr 2"
    using rh by (simp add: get_num_subsections_def getitem_0 py_int_def)
  have hz: "parse_header ?z1 = Inr (41091, Fin 90, 0, 0, 0, 2)"
    by (simp add: header_eval)
  have k: "str 41091 = ''41091''" by (simp add: str_eval)
  have s2: "yield_step ?L ?h 2 = Inr (''41091'', [?h, ?z1, ?a2, ?a3], 5)"
    using hz k by (simp add: step_eval)
  have "find_yields_loop ?L ?h 2 [] = Some (Inr [(''41091'', [?h, ?z1, ?a2, ?a3])])"
    by (simp add: loop_step [OF _ s2] loop_past_end)
  then have "find_yields ?T = Some (Inr (YieldDict [(''41091'', [?h, ?z1, ?a2, ?a3])]))"
    using find_yields_enters_loop [OF sec cnt] by simp
  then show ?thesis using hz by (simp only: Let_def simp_thms)
qed

section \<open>Termination of the loop\<close>

text \<open>
  C6 (as the code has it). Let every line of the range that decodes as a header have
  a point count \<open>NP\<close> of at least -5 (every count that is not negative, for one). Then
  the loop terminates, from any cursor and with any dictionary. Once the cursor is
  past the last line it returns the dictionary, and a cursor that lands one past the
  last line is no error. At a line where the body runs through, the cursor moves on
  by \<open>data_lines + 2\<close>, at least one line, and \<open>data_lines\<close> is \<open>ceil(NP/3)\<close> for every
  \<open>NP\<close> of absolute value below \<open>3 * 2^51\<close>, where the division in floating point is
  exact enough.
\<close>

theorem find_yields_loop_terminates:
  assumes counts: "\<forall>l\<in>set lines. \<forall>ZAP AWR LIP LAW NR NP.
      parse_header l = Inr (ZAP, AWR, LIP, LAW, NR, NP) \<longrightarrow> - 5 \<le> NP"
  shows "(\<exists>r. find_yields_loop lines head_line line_num d = Some r)
       \<and> (int (length lines) < line_num \<longrightarrow>
            find_yields_loop lines head_line line_num d = Some (Inr d))
       \<and> (\<forall>key block next_line.
            line_num \<le> int (length lines) \<longrightarrow>
            yield_step lines head_line line_num = Inr (key, block, next_line) \<longrightarrow>
              (\<exists>l ZAP AWR LIP LAW NR NP dl.
                  getitem lines (line_num - 1) = Inr l
                \<and> parse_header l = Inr (ZAP, AWR, LIP, LAW, NR, NP)
                \<and> data_lines_of NP = Inr dl
                \<and> (\<bar>NP\<bar> < 3 * 2 ^ 51 \<longrightarrow> dl = \<lceil>rat_of_int NP / 3\<rceil>)
                \<and> next_line = line_num + (dl + 2)
                \<and> line_num < next_line)
              \<and> find_yields_loop lines head_line line_num d =
                  find_yields_loop lines head_line next_line (AList.update key block d))"
proof (intro conjI allI impI)
  show "\<exists>r. find_yields_loop lines head_line line_num d = Some r"
    using counts by (rule loop_terminates)
next
  assume "int (length lines) < line_num"
  then show "find_yields_loop lines head_line line_num d = Some (Inr d)"
    by (rule loop_past_end)
next
  fix key block next_line
  assume cur: "line_num \<le> int (length lines)"
    and st: "yield_step lines head_line line_num = Inr (key, block, next_line)"
  from yield_step_Inr [OF st]
  obtain l ZAP AWR LIP LAW NR NP dl where
    l: "getitem lines (line_num - 1) = Inr l"
    and h: "parse_header l = Inr (ZAP, AWR, LIP, LAW, NR, NP)"
    and dl: "data_lines_of NP = Inr dl"
    and nx: "next_line = line_num + (dl + 2)"
    by blast
  have "- 5 \<le> NP" using counts getitem_mem [OF l] h by blast
  then have "- 1 \<le> dl" using dl by (rule data_lines_progress)
  then have adv: "line_num < next_line" using nx by simp
  have ex: "\<bar>NP\<bar> < 3 * 2 ^ 51 \<longrightarrow> dl = \<lceil>rat_of_int NP / 3\<rceil>"
    using data_lines_exact [of NP] dl by simp
  show "\<exists>l ZAP AWR LIP LAW NR NP dl.
      getitem lines (line_num - 1) = Inr l
    \<and> parse_header l = Inr (ZAP, AWR, LIP, LAW, NR, NP)
    \<and> data_lines_of NP = Inr dl
    \<and> (\<bar>NP\<bar> < 3 * 2 ^ 51 \<longrightarrow> dl = \<lceil>rat_of_int NP / 3\<rceil>)
    \<and> next_line = line_num + (dl + 2)
    \<and> line_num < next_line"
    using l h dl ex nx adv by (intro exI conjI)
  show "find_yields_loop lines head_line line_num d =
      find_yields_loop lines head_line next_line (AList.update key block d)"
    using cur st by (rule loop_step)
qed

theorem find_yields_loop_terminates_witness:
  "let h = '' 4.009000+4 8.900000+1          0          2          2          04025 6  5    1'';
       a1 = '' 4.109100+4 9.000000+1          0          0          1          24025 6  5    2'';
       a2 = ''          2          2                                            4025 6  5    3'';
       d3 = '' 1.000000+6 1.000000+0 2.000000+7 2.000000+0                      4025 6  5    4''
   in (\<exists>r. find_yields_loop [h, a1, a2, d3] h 2 [] = Some r)
      \<and> find_yields_loop [h, a1, a2, d3] h 5 [] = Some (Inr [])"
proof -
  let ?h = "'' 4.009000+4 8.900000+1          0          2          2          04025 6  5    1''"
  let ?a1 = "'' 4.109100+4 9.000000+1          0          0          1          24025 6  5    2''"
  let ?a2 = "''          2          2                                            4025 6  5    3''"
  let ?d3 = "'' 1.000000+6 1.000000+0 2.000000+7 2.000000+0                      4025 6  5    4''"
  let ?L = "[?h, ?a1, ?a2, ?d3]"
  have rh: "parse_header ?h = Inr (40090, Fin 89, 0, 2, 2, 0)"
    by (simp add: header_eval)
  have ra1: "parse_header ?a1 = Inr (41091, Fin 90, 0, 0, 1, 2)"
    by (simp add: header_eval)
  have ra2: "parse_header ?a2 = Inr (2, Fin 2, 0, 0, 0, 0)"
    by (simp add: header_eval)
  have rd3: "parse_header ?d3 = Inr (1000000, Fin 1, 20000000, 2, 0, 0)"
    by (simp add: header_eval)
  have counts: "\<forall>l\<in>set ?L. \<forall>ZAP AWR LIP LAW NR NP.
      parse_header l = Inr (ZAP, AWR, LIP, LAW, NR, NP) \<longrightarrow> - 5 \<le> NP"
    using rh ra1 ra2 rd3 by simp
  have 1: "\<exists>r. find_yields_loop ?L ?h 2 [] = Some r"
    using find_yields_loop_terminates [OF counts, of ?h 2 "[]"] by (rule conjunct1)
  have 2: "find_yields_loop ?L ?h 5 [] = Some (Inr [])"
    using find_yields_loop_terminates [OF counts, of ?h 5 "[]"] by simp
  show ?thesis using 1 2 by (simp only: Let_def simp_thms)
qed

text \<open>
  The claim as the specification states it has the loop terminate on every range. Here
  the subsection header declares \<open>NP = -6\<close>: \<open>data_lines\<close> is -2, the cursor stays
  where it is, and \<open>find_yields\<close> never returns.
\<close>

theorem find_yields_diverges_counterexample:
  "let p = '' 4.009000+4 8.900000+1          0          0          0          04025 3  5    1'';
       h = '' 4.009000+4 8.900000+1          0          2          2          04025 6  5    1'';
       n1 = '' 4.109100+4 9.000000+1          0          0          1         -64025 6  5    2'';
       a2 = ''          2          2                                            4025 6  5    3'';
       a3 = '' 1.000000+6 5.000000-1 2.000000+7 2.500000-1                      4025 6  5    4'';
       e = ''                                                                  4025 6  099999''
   in find_yields [p, h, n1, a2, a3, e] = None"
proof -
  let ?p = "'' 4.009000+4 8.900000+1          0          0          0          04025 3  5    1''"
  let ?h = "'' 4.009000+4 8.900000+1          0          2          2          04025 6  5    1''"
  let ?n1 = "'' 4.109100+4 9.000000+1          0          0          1         -64025 6  5    2''"
  let ?a2 = "''          2          2                                            4025 6  5    3''"
  let ?a3 = "'' 1.000000+6 5.000000-1 2.000000+7 2.500000-1                      4025 6  5    4''"
  let ?e = "''                                                                  4025 6  099999''"
  let ?T = "[?p, ?h, ?n1, ?a2, ?a3, ?e]"
  let ?L = "[?h, ?n1, ?a2, ?a3]"
  have sec: "find_section ?T 6 5 = Inr ?L"
    by (simp add: find_section_def cmpstr_6_5 substr_def slice_def clamp_index_def)
  have rh: "read_line ?h = Inr [Fin 40090, Fin 89, Fin 0, Fin 2, Fin 2, Fin 0]"
    by (simp add: line_eval)
  have cnt: "get_num_subsections ?L = Inr 2"
    using rh by (simp add: get_num_subsections_def getitem_0 py_int_def)
  have hn: "parse_header ?n1 = Inr (41091, Fin 90, 0, 0, 1, - 6)"
    by (simp add: header_eval)
  have k: "str 41091 = ''41091''" by (simp add: str_eval)
  have s2: "yield_step ?L ?h 2 = Inr (''41091'', [?h], 2)"
    using hn k by (simp add: step_eval)
  have "find_yields_loop ?L ?h 2 [] = None"
    by (rule loop_stuck [OF s2]) simp
  then have "find_yields ?T = None"
    using find_yields_enters_loop [OF sec cnt] by simp
  then show ?thesis by (simp only: Let_def)
qed

section \<open>The field decoder and the ENDF shorthand\<close>

text \<open>
  C4. A field in ENDF shorthand is an optional sign in its first character (or blanks
  in front), a mantissa of digits with an optional decimal point, the sign \<open>c\<close> of the
  exponent with no \<open>e\<close> before it, the digits of the exponent, and blanks after.
  \<open>float\<close> rejects such a field; \<open>read_float\<close> then puts the \<open>e\<close> before the sign of
  the exponent, leaves the first character as it is, and returns what \<open>float\<close> gives
  for the field so marked: the float nearest to the mantissa times the power of ten,
  negated when the leading sign is a minus.
\<close>

theorem read_float_shorthand:
  assumes pre: "pre = [] \<or> pre = ''+'' \<or> pre = ''-'' \<or> set pre \<subseteq> {CHR '' ''}"
    and ip: "list_all is_digit ip" and fp: "list_all is_digit fp"
    and some: "ip @ fp \<noteq> []" and pt: "\<not> pt \<longrightarrow> fp = []"
    and c: "c = CHR ''+'' \<or> c = CHR ''-''"
    and ex: "ex \<noteq> []" "list_all is_digit ex"
    and post: "set post \<subseteq> {CHR '' ''}"
  shows "py_float (pre @ ip @ (if pt then CHR ''.'' # fp else []) @ c # ex @ post) = None
       \<and> read_float (pre @ ip @ (if pt then CHR ''.'' # fp else []) @ c # ex @ post) =
           Inr (round64 (if pre = ''-''
              then - (of_nat (digits_val (ip @ fp)) / 10 ^ length fp
                        * pow10 (c = CHR ''-'') (digits_val ex))
              else of_nat (digits_val (ip @ fp)) / 10 ^ length fp
                        * pow10 (c = CHR ''-'') (digits_val ex)))
       \<and> py_float (pre @ ip @ (if pt then CHR ''.'' # fp else []) @ CHR ''e'' # c # ex @ post) =
           Some (round64 (if pre = ''-''
              then - (of_nat (digits_val (ip @ fp)) / 10 ^ length fp
                        * pow10 (c = CHR ''-'') (digits_val ex))
              else of_nat (digits_val (ip @ fp)) / 10 ^ length fp
                        * pow10 (c = CHR ''-'') (digits_val ex)))"
proof -
  define mant where "mant = ip @ (if pt then CHR ''.'' # fp else [])"
  define m :: rat where "m = of_nat (digits_val (ip @ fp)) / 10 ^ length fp"
  define q where "q = m * pow10 (c = CHR ''-'') (digits_val ex)"
  define v where "v = pre @ mant @ c # ex @ post"
  define v' where "v' = pre @ mant @ CHR ''e'' # c # ex @ post"
  have exd: "\<forall>x\<in>set ex. is_digit x" using ex(2) by (simp add: list_all_iff)
  have ipd: "\<forall>x\<in>set ip. is_digit x" and fpd: "\<forall>x\<in>set fp. is_digit x"
    using ip fp by (simp_all add: list_all_iff)
  have last_ex: "is_digit (last ex)" using ex(1) exd by simp
  obtain a sp where dec: "pre = a @ sp" and a: "set a \<subseteq> {CHR '' ''}"
    and sp: "sp = [] \<or> sp = ''+'' \<or> sp = ''-''" and neg: "(sp = ''-'') = (pre = ''-'')"
  proof -
    have "pre = [] @ pre \<and> set [] \<subseteq> {CHR '' ''} \<and> (pre = [] \<or> pre = ''+'' \<or> pre = ''-'')
          \<or> pre = pre @ [] \<and> set pre \<subseteq> {CHR '' ''} \<and> pre \<noteq> ''-''"
      using pre by auto
    then show ?thesis using that [of "[]" pre] that [of pre "[]"] by auto
  qed
  have direct: "py_float v = None"
  proof -
    have "CHR ''_'' \<notin> set ex" using digits_no_sign [OF exd] by simp
    then have "py_float (a @ sp @ ip @ (if pt then CHR ''.'' # fp else []) @ c # ex @ post) =
        (case parse_exponent m (c # ex) of
           Some q \<Rightarrow> Some (round64 (if sp = ''-'' then - q else q)) | None \<Rightarrow> None)"
      unfolding m_def using c ex(1) last_ex
      by (intro py_float_shape [OF a post sp ip fp some pt]) auto
    then show ?thesis
      using parse_exponent_unmarked [OF c] by (simp add: v_def mant_def dec)
  qed
  have marked: "py_float v' = Some (round64 (if pre = ''-'' then - q else q))"
  proof -
    have "CHR ''_'' \<notin> set (c # ex)" using digits_no_sign [OF exd] c by auto
    moreover have "is_digit (last (c # ex))" using ex(1) last_ex by simp
    ultimately have "py_float
        (a @ sp @ ip @ (if pt then CHR ''.'' # fp else []) @ CHR ''e'' # (c # ex) @ post) =
        (case parse_exponent m (CHR ''e'' # c # ex) of
           Some q \<Rightarrow> Some (round64 (if sp = ''-'' then - q else q)) | None \<Rightarrow> None)"
      unfolding m_def
      by (intro py_float_shape [OF a post sp ip fp some pt]) simp_all
    then show ?thesis
      using parse_exponent_marked [OF c ex, of m] neg
      by (simp add: v'_def mant_def dec q_def)
  qed
  have nosign_mant: "CHR ''+'' \<notin> set mant" "CHR ''-'' \<notin> set mant"
    using digits_no_sign [OF ipd] digits_no_sign [OF fpd] by (simp_all add: mant_def)
  have nosign_tail: "CHR ''+'' \<notin> set (ex @ post)" "CHR ''-'' \<notin> set (ex @ post)"
    using digits_no_sign [OF exd] blanks_no_sign [OF post] by simp_all
  have mant_ne: "mant \<noteq> []" using some pt by (auto simp: mant_def)
  obtain h u where hu: "pre @ mant = h # u"
    and nosign_u: "CHR ''+'' \<notin> set u" "CHR ''-'' \<notin> set u"
  proof -
    consider "pre = []" | "pre = ''+'' \<or> pre = ''-''" | "pre \<noteq> []" "set pre \<subseteq> {CHR '' ''}"
      using pre by blast
    then show ?thesis
    proof cases
      case 1
      obtain x xs where "mant = x # xs" using mant_ne by (cases mant) auto
      then show ?thesis using that [of x xs] nosign_mant 1 by auto
    next
      case 2
      then show ?thesis using that [of "hd pre" mant] nosign_mant by auto
    next
      case 3
      obtain x xs where p: "pre = x # xs" using 3(1) by (cases pre) auto
      then have "set xs \<subseteq> {CHR '' ''}" using 3(2) by simp
      then have "CHR ''+'' \<notin> set xs" "CHR ''-'' \<notin> set xs"
        using blanks_no_sign by blast+
      then show ?thesis using that [of x "xs @ mant"] nosign_mant p by auto
    qed
  qed
  have "v = (pre @ mant) @ c # (ex @ post)" by (simp add: v_def)
  then have v_eq: "v = h # (u @ c # (ex @ post))"
    by (simp only: hu append_Cons)
  have "v' = (pre @ mant) @ CHR ''e'' # c # (ex @ post)" by (simp add: v'_def)
  then have v'_eq: "v' = h # (u @ CHR ''e'' # c # (ex @ post))"
    by (simp only: hu append_Cons)
  have fallback: "h # replace (CHR ''-'') ''e-'' (replace (CHR ''+'') ''e+'' (u @ c # (ex @ post))) = v'"
    using mark_exponent [OF nosign_u nosign_tail c] by (simp only: v'_eq)
  have "last ex \<in> set v" using ex(1) by (simp add: v_def)
  then have "strip_with isspace v \<noteq> []"
    using digit_facts(9) [OF last_ex] by (rule strip_with_nonempty)
  then have "read_float v = Inr (round64 (if pre = ''-'' then - q else q))"
    using direct marked fallback
    by (simp add: read_float_def strip_def) (simp add: v_eq)
  then show ?thesis
    using direct marked by (simp add: v_def v'_def mant_def q_def m_def)
qed

theorem read_float_shorthand_witness:
  "read_float ''1.23456+5'' = Inr (Fin 123456)
   \<and> read_float ''-1.23456-5'' = Inr (Fin (- (1821888989091109 / 2 ^ 67)))
   \<and> py_float ''-1.23456e-5'' = Some (Fin (- (1821888989091109 / 2 ^ 67)))
   \<and> read_float '' 1.234560+5'' = Inr (Fin 123456)"
proof -
  have d: "list_all is_digit ''1''" "list_all is_digit ''23456''" "list_all is_digit ''234560''"
    "list_all is_digit ''5''"
    by (simp_all add: is_digit_def)
  have v: "digits_val ''123456'' = 123456" "digits_val ''1234560'' = 1234560"
    "digits_val ''5'' = 5"
    by (simp_all add: digits_val_def)
  have r: "round64 (- (123456 / 10 ^ 10)) = Fin (- (1821888989091109 / 2 ^ 67))"
  proof -
    have q: "\<bar>- (123456 / 10 ^ 10 :: rat)\<bar> / pow2 (max (- 17) (- 1022) - 52) =
        of_int (123456 * 2 ^ 69) / of_int (10 ^ 10)"
      by (simp add: pow2_def)
    have n: "round_half_even (of_int (123456 * 2 ^ 69) / of_int (10 ^ 10)) = 7287555956364436"
      by (subst round_half_even_frac) simp_all
    show ?thesis
      by (subst round64_eval [where e = "- 17"])
        (simp_all only: q n Let_def, simp_all add: pow2_def)
  qed
  have 1: "read_float ''1.23456+5'' = Inr (Fin 123456)"
    using read_float_shorthand [of "[]" "''1''" "''23456''" True "CHR ''+''" "''5''" "[]"] d v
    by (simp add: pow10_def round64_numeral)
  have 2: "read_float ''-1.23456-5'' = Inr (Fin (- (1821888989091109 / 2 ^ 67)))
      \<and> py_float ''-1.23456e-5'' = Some (Fin (- (1821888989091109 / 2 ^ 67)))"
    using read_float_shorthand [of "''-''" "''1''" "''23456''" True "CHR ''-''" "''5''" "[]"] d v r
    by (simp add: pow10_def)
  have 3: "read_float '' 1.234560+5'' = Inr (Fin 123456)"
    using read_float_shorthand [of "'' ''" "''1''" "''234560''" True "CHR ''+''" "''5''" "[]"] d v
    by (simp add: pow10_def round64_numeral)
  show ?thesis using 1 2 3 by simp
qed

end
